theory Spec2Isabelle
  imports Main "HOL-Library.Sublist"
begin

section \<open>Strings of the host language\<close>

text \<open>
  The plugin works on JavaScript strings. They are modelled as \<^typ>\<open>string\<close>, a list of
  code units; the model covers code units below 256, which is where every character that
  the plugin's patterns name lives. The line terminators and white space characters above
  that range (U+2028, U+2029, U+FEFF and the Unicode space separators) have no counterpart
  in \<^typ>\<open>char\<close>.
\<close>

definition isLineTerminator :: "char \<Rightarrow> bool" where
  \<comment> \<open>what the regular expression atom \<open>.\<close> refuses: line feed and carriage return\<close>
  "isLineTerminator c \<longleftrightarrow> c = CHR 0x0A \<or> c = CHR 0x0D"

definition isDot :: "char \<Rightarrow> bool" where
  "isDot c \<longleftrightarrow> \<not> isLineTerminator c"

definition isWhiteSpace :: "char \<Rightarrow> bool" where
  \<comment> \<open>what \<open>String.prototype.trim\<close> strips: tab, LF, VT, FF, CR, space, no-break space\<close>
  "isWhiteSpace c \<longleftrightarrow>
     c = CHR 0x09 \<or> c = CHR 0x0A \<or> c = CHR 0x0B \<or> c = CHR 0x0C \<or> c = CHR 0x0D \<or>
     c = CHR 0x20 \<or> c = CHR 0xA0"

definition isWordChar :: "char \<Rightarrow> bool" where
  \<comment> \<open>the regular expression class \<open>\w\<close>\<close>
  "isWordChar c \<longleftrightarrow>
     c \<in> set ''abcdefghijklmnopqrstuvwxyzABCDEFGHIJKLMNOPQRSTUVWXYZ0123456789_''"

definition trim :: "string \<Rightarrow> string" where
  "trim s = rev (dropWhile isWhiteSpace (rev (dropWhile isWhiteSpace s)))"

fun includes_str :: "string \<Rightarrow> string \<Rightarrow> bool" where
  \<comment> \<open>\<open>s.includes(pat)\<close>\<close>
  "includes_str [] pat = (pat = [])"
| "includes_str (c # cs) pat = (prefix pat (c # cs) \<or> includes_str cs pat)"

definition startsWith :: "string \<Rightarrow> string \<Rightarrow> bool" where
  "startsWith s pat = prefix pat s"

fun split_str :: "string \<Rightarrow> string list" where
  \<comment> \<open>\<open>s.split('\n')\<close>: never empty, the empty string gives one empty line\<close>
  "split_str [] = [[]]"
| "split_str (c # cs) =
     (if c = CHR 0x0A then [] # split_str cs
      else (case split_str cs of l # ls \<Rightarrow> (c # l) # ls | [] \<Rightarrow> [[c]]))"

fun replace_str :: "string \<Rightarrow> string \<Rightarrow> string \<Rightarrow> string" where
  \<comment> \<open>\<open>s.replace(pat, rep)\<close> for a string pattern and a replacement text without \<open>$\<close>:
      the first occurrence only\<close>
  "replace_str [] pat rep = (if pat = [] then rep else [])"
| "replace_str (c # cs) pat rep =
     (if prefix pat (c # cs) then rep @ drop (length pat) (c # cs)
      else c # replace_str cs pat rep)"

fun getSubstitution :: "string \<Rightarrow> string \<Rightarrow> string \<Rightarrow> string \<Rightarrow> string" where
  \<comment> \<open>the expansion of a replacement template for a pattern without capture groups:
      \<open>$$\<close>, \<open>$&\<close>, \<open>$`\<close> and \<open>$'\<close> are special, every other \<open>$\<close> is literal\<close>
  "getSubstitution matched str_before str_after [] = []"
| "getSubstitution matched str_before str_after [c] = [c]"
| "getSubstitution matched str_before str_after (c # d # r) =
     (if c = CHR ''$'' \<and> d = CHR ''$'' then CHR ''$'' # getSubstitution matched str_before str_after r
      else if c = CHR ''$'' \<and> d = CHR ''&'' then matched @ getSubstitution matched str_before str_after r
      else if c = CHR ''$'' \<and> d = CHR 0x60 then str_before @ getSubstitution matched str_before str_after r
      else if c = CHR ''$'' \<and> d = CHR 0x27 then str_after @ getSubstitution matched str_before str_after r
      else c # getSubstitution matched str_before str_after (d # r))"

definition replace_trailing_bracket :: "string \<Rightarrow> string \<Rightarrow> string" where
  \<comment> \<open>\<open>s.replace(/\]$/, template)\<close>: \<open>$\<close> is the end of the input (no \<open>m\<close> flag)\<close>
  "replace_trailing_bracket s template =
     (if s \<noteq> [] \<and> last s = CHR '']''
      then butlast s @ getSubstitution '']'' (butlast s) [] template
      else s)"

fun numToString :: "nat \<Rightarrow> string" where
  \<comment> \<open>the decimal text of the counter, as the template literal prints it\<close>
  "numToString n =
     (if n < 10 then [''0123456789'' ! n]
      else numToString (n div 10) @ [''0123456789'' ! (n mod 10)])"

declare numToString.simps [simp del]

section \<open>The patterns of the line parser\<close>

definition taskMatchAt :: "string \<Rightarrow> (string \<times> string) option" where
  \<comment> \<open>\<open>/- \[[ x]\] (.+)/\<close> tried at the start of \<open>s\<close>: the whole match and group 1\<close>
  "taskMatchAt s =
     (if (prefix ''- [ ] '' s \<or> prefix ''- [x] '' s) \<and> takeWhile isDot (drop 6 s) \<noteq> []
      then Some (take 6 s @ takeWhile isDot (drop 6 s), takeWhile isDot (drop 6 s))
      else None)"

fun taskMatch :: "string \<Rightarrow> (string \<times> string) option" where
  \<comment> \<open>\<open>line.match(/- \[[ x]\] (.+)/)\<close>: the leftmost position where the pattern matches\<close>
  "taskMatch [] = None"
| "taskMatch (c # cs) =
     (case taskMatchAt (c # cs) of Some m \<Rightarrow> Some m | None \<Rightarrow> taskMatch cs)"

definition idMatchAt :: "string \<Rightarrow> string option" where
  \<comment> \<open>\<open>/\[id:(\w+)\]/\<close> tried at the start of \<open>s\<close>: group 1\<close>
  "idMatchAt s =
     (if prefix ''[id:'' s \<and> takeWhile isWordChar (drop 4 s) \<noteq> []
         \<and> prefix '']'' (dropWhile isWordChar (drop 4 s))
      then Some (takeWhile isWordChar (drop 4 s)) else None)"

fun idMatch :: "string \<Rightarrow> string option" where
  "idMatch [] = None"
| "idMatch (c # cs) =
     (case idMatchAt (c # cs) of Some w \<Rightarrow> Some w | None \<Rightarrow> idMatch cs)"

definition dependsOnMatchAt :: "string \<Rightarrow> string option" where
  \<comment> \<open>\<open>/\[dependsOn:(\w+)\]/\<close> tried at the start of \<open>s\<close>: the whole match\<close>
  "dependsOnMatchAt s =
     (if prefix ''[dependsOn:'' s \<and> takeWhile isWordChar (drop 11 s) \<noteq> []
         \<and> prefix '']'' (dropWhile isWordChar (drop 11 s))
      then Some (''[dependsOn:'' @ takeWhile isWordChar (drop 11 s) @ '']'') else None)"

fun dependsOnMatch :: "string \<Rightarrow> string list" where
  \<comment> \<open>\<open>taskName.match(/\[dependsOn:(\w+)\]/g)\<close>: every match, left to right, the search
      resuming behind each match; the empty list stands for \<open>null\<close>\<close>
  "dependsOnMatch [] = []"
| "dependsOnMatch (c # cs) =
     (case dependsOnMatchAt (c # cs) of
        Some m \<Rightarrow> m # dependsOnMatch (drop (length m - 1) cs)
      | None \<Rightarrow> dependsOnMatch cs)"

definition slice_11_m1 :: "string \<Rightarrow> string" where
  \<comment> \<open>\<open>match.slice(11, -1)\<close>\<close>
  "slice_11_m1 m = butlast (drop 11 m)"

definition tagLengthAt :: "string \<Rightarrow> nat option" where
  \<comment> \<open>\<open>/\[[^\]]+\]/\<close> tried at the start of \<open>s\<close>: the length of the match\<close>
  "tagLengthAt s =
     (if prefix ''['' s \<and> takeWhile (\<lambda>c. c \<noteq> CHR '']'') (drop 1 s) \<noteq> []
         \<and> dropWhile (\<lambda>c. c \<noteq> CHR '']'') (drop 1 s) \<noteq> []
      then Some (length (takeWhile (\<lambda>c. c \<noteq> CHR '']'') (drop 1 s)) + 2) else None)"

fun removeTags :: "string \<Rightarrow> string" where
  \<comment> \<open>\<open>taskName.replace(/\[[^\]]+\]/g, '')\<close>\<close>
  "removeTags [] = []"
| "removeTags (c # cs) =
     (case tagLengthAt (c # cs) of
        Some n \<Rightarrow> removeTags (drop (n - 1) cs)
      | None \<Rightarrow> c # removeTags cs)"

section \<open>Extraction: \<open>getTasksFromNotes\<close>\<close>

record Task =
  id_t :: string
  name :: string
  dependencies :: "string list"
  completed :: bool

text \<open>
  The vault of the host application: the markdown files in the order
  \<open>getMarkdownFiles()\<close> lists them, the text of each file, and the calls of
  \<open>vault.modify\<close> made so far. \<open>cachedRead\<close> and \<open>read\<close> both return the stored text.
\<close>

record vault =
  files :: "string list"
  contents :: "string \<Rightarrow> string"
  modified :: "(string \<times> string) list"

definition read :: "vault \<Rightarrow> string \<Rightarrow> string" where
  "read v file = contents v file"

definition modify :: "vault \<Rightarrow> string \<Rightarrow> string \<Rightarrow> vault" where
  "modify v file data =
     v\<lparr>contents := (contents v)(file := data), modified := modified v @ [(file, data)]\<rparr>"

text \<open>
  What the body of the \<open>forEach\<close> callback computes from one line before it looks at
  the set of identities: the explicit identity if the item text carries one, the label,
  the dependencies and the completion flag.
\<close>

record parsed =
  idTag :: "string option"
  label :: string
  dependsOn :: "string list"
  checked :: bool

definition parseLine :: "string \<Rightarrow> parsed option" where
  "parseLine line =
     (case taskMatch line of
        None \<Rightarrow> None
      | Some (m0, m1) \<Rightarrow>
          let taskName = trim m1
          in Some \<lparr>idTag = idMatch taskName,
                   label = trim (removeTags taskName),
                   dependsOn = map slice_11_m1 (dependsOnMatch taskName),
                   checked = includes_str line ''- [x]''\<rparr>)"

text \<open>
  The state of one build: the tasks pushed so far, the set of identities seen and the
  counter of synthesized identities. The counter is a JavaScript number; it is modelled
  as a natural number, exact below \<open>2^53\<close>.
\<close>

record build =
  tasks :: "Task list"
  taskIds :: "string set"
  uniqueId :: nat

definition lineCallback :: "build \<Rightarrow> string \<Rightarrow> build" where
  "lineCallback st line =
     (case parseLine line of
        None \<Rightarrow> st
      | Some p \<Rightarrow>
          let taskId = (case idTag p of Some w \<Rightarrow> w
                        | None \<Rightarrow> ''task'' @ numToString (uniqueId st));
              st1 = (case idTag p of Some w \<Rightarrow> st
                     | None \<Rightarrow> st\<lparr>uniqueId := uniqueId st + 1\<rparr>)
          in if taskId \<in> taskIds st1 then st1
             else st1\<lparr>taskIds := insert taskId (taskIds st1),
                      tasks := tasks st1 @
                        [\<lparr>id_t = taskId, name = label p,
                          dependencies = dependsOn p, completed = checked p\<rparr>]\<rparr>)"

definition fileLoop :: "vault \<Rightarrow> build \<Rightarrow> string \<Rightarrow> build" where
  "fileLoop v st file = foldl lineCallback st (split_str (read v file))"

definition getTasksFromNotes :: "vault \<Rightarrow> Task list" where
  "getTasksFromNotes v =
     tasks (foldl (fileLoop v) \<lparr>tasks = [], taskIds = {}, uniqueId = 1\<rparr> (files v))"

section \<open>Projection: the nodes and edges of \<open>renderGraph\<close>\<close>

record node =
  node_id :: string
  node_label :: string
  color :: string

record edge =
  from_id :: string
  to_id :: string

definition graphNodes :: "Task list \<Rightarrow> node list" where
  "graphNodes ts =
     map (\<lambda>task. \<lparr>node_id = id_t task, node_label = name task,
                   color = (if completed task then ''#9BE7A4'' else ''#E7A49B'')\<rparr>) ts"

definition graphEdges :: "Task list \<Rightarrow> edge list" where
  "graphEdges ts =
     concat (map (\<lambda>task. map (\<lambda>dep. \<lparr>from_id = dep, to_id = id_t task\<rparr>)
                              (dependencies task)) ts)"

section \<open>Mutation: \<open>toggleTaskCompletion\<close> and \<open>updateTaskDependency\<close>\<close>

definition toggleLine :: "string \<Rightarrow> string \<Rightarrow> string" where
  "toggleLine taskId line =
     (if includes_str line (''[id:'' @ taskId @ '']'') then
        (if startsWith line ''- [ ]'' then replace_str line ''- [ ]'' ''- [x]''
         else if startsWith line ''- [x]'' then replace_str line ''- [x]'' ''- [ ]''
         else line)
      else line)"

definition toggleContent :: "string \<Rightarrow> string \<Rightarrow> string" where
  "toggleContent taskId content =
     foldl (\<lambda>updatedContent line. updatedContent @ toggleLine taskId line @ [CHR 0x0A])
           [] (split_str content)"

definition toggleTaskCompletion :: "string \<Rightarrow> vault \<Rightarrow> vault" where
  "toggleTaskCompletion taskId v =
     foldl (\<lambda>v file. modify v file (trim (toggleContent taskId (read v file)))) v (files v)"

definition dependencyLine :: "string \<Rightarrow> string \<Rightarrow> string \<Rightarrow> string" where
  "dependencyLine fromTaskId toTaskId line =
     (if includes_str line (''[id:'' @ toTaskId @ '']'') then
        (if includes_str line (''[dependsOn:'' @ fromTaskId @ '']'') then line
         else replace_trailing_bracket line ('' [dependsOn:'' @ fromTaskId @ '']]''))
      else line)"

definition dependencyContent :: "string \<Rightarrow> string \<Rightarrow> string \<Rightarrow> string" where
  "dependencyContent fromTaskId toTaskId content =
     foldl (\<lambda>updatedContent line.
              updatedContent @ dependencyLine fromTaskId toTaskId line @ [CHR 0x0A])
           [] (split_str content)"

definition updateTaskDependency :: "string \<Rightarrow> string \<Rightarrow> vault \<Rightarrow> vault" where
  "updateTaskDependency fromTaskId toTaskId v =
     foldl (\<lambda>v file.
              modify v file (trim (dependencyContent fromTaskId toTaskId (read v file))))
           v (files v)"

section \<open>Auxiliary notions for the statements\<close>

text \<open>
  The lines of the whole corpus, in the order the two nested loops of
  \<open>getTasksFromNotes\<close> visit them: file by file, line by line.
\<close>

definition allLines :: "vault \<Rightarrow> string list" where
  "allLines v = concat (map (\<lambda>file. split_str (read v file)) (files v))"

definition taskOf :: "string \<Rightarrow> parsed \<Rightarrow> Task" where
  \<comment> \<open>the object literal that \<open>tasks.push\<close> receives\<close>
  "taskOf taskId p =
     \<lparr>id_t = taskId, name = label p, dependencies = dependsOn p, completed = checked p\<rparr>"

text \<open>
  What every recognized line yields, before the set of seen identities is consulted:
  the counter \<open>n\<close> advances at each line without an explicit identity, whether or not
  the task is kept.
\<close>

fun candidates :: "nat \<Rightarrow> string list \<Rightarrow> Task list" where
  "candidates n [] = []"
| "candidates n (line # ls) =
     (case parseLine line of
        None \<Rightarrow> candidates n ls
      | Some p \<Rightarrow>
          (case idTag p of
             Some w \<Rightarrow> taskOf w p # candidates n ls
           | None \<Rightarrow> taskOf (''task'' @ numToString n) p # candidates (n + 1) ls))"

fun keepNew :: "string set \<Rightarrow> Task list \<Rightarrow> Task list" where
  "keepNew seen [] = []"
| "keepNew seen (c # cs) =
     (if id_t c \<in> seen then keepNew seen cs else c # keepNew (insert (id_t c) seen) cs)"

fun joinLines :: "string list \<Rightarrow> string" where
  \<comment> \<open>the inverse of \<open>split_str\<close>: the lines with a line feed between neighbours\<close>
  "joinLines [] = []"
| "joinLines [l] = l"
| "joinLines (l # l' # ls) = l @ CHR 0x0A # joinLines (l' # ls)"

definition gentle :: "(string \<Rightarrow> string) \<Rightarrow> bool" where
  \<comment> \<open>a rewriting of lines that keeps a line empty or not, keeps its first and last
      character and adds no line feed\<close>
  "gentle g \<longleftrightarrow>
     (\<forall>l. (g l = [] \<longleftrightarrow> l = []) \<and>
          (l \<noteq> [] \<longrightarrow> hd (g l) = hd l \<and> last (g l) = last l) \<and>
          (CHR 0x0A \<notin> set l \<longrightarrow> CHR 0x0A \<notin> set (g l)))"

definition isWord :: "string \<Rightarrow> bool" where
  \<comment> \<open>what \<open>\w+\<close> matches: the shape of every identity that extraction produces\<close>
  "isWord w \<longleftrightarrow> w \<noteq> [] \<and> list_all isWordChar w"

definition vaultOf :: "(string \<times> string) list \<Rightarrow> vault" where
  \<comment> \<open>a vault holding the given documents, none modified yet\<close>
  "vaultOf docs = \<lparr>files = map fst docs,
                    contents = (\<lambda>file. case map_of docs file of Some c \<Rightarrow> c | None \<Rightarrow> []),
                    modified = []\<rparr>"

definition marker :: "string \<Rightarrow> string option" where
  \<comment> \<open>the checklist marker of a recognized line: the first five characters of the text
      that the task pattern matched\<close>
  "marker line = (case taskMatch line of None \<Rightarrow> None | Some (m0, m1) \<Rightarrow> Some (take 5 m0))"

definition checklistItem :: "string \<Rightarrow> bool" where
  \<comment> \<open>the specification's words: a line of the form \<open>- [ ] ...\<close> or \<open>- [x] ...\<close>\<close>
  "checklistItem line \<longleftrightarrow>
     (prefix ''- [ ] '' line \<or> prefix ''- [x] '' line) \<and> length line > 6"

text \<open>
  White space at the two ends of a document, seen line by line. \<open>trim\<close> removes the
  blank lines at either end, the white space that starts the first line left and the
  white space that ends the last line left.
\<close>

definition trimEnd :: "string \<Rightarrow> string" where
  \<comment> \<open>a string without the white space at its end\<close>
  "trimEnd s = rev (dropWhile isWhiteSpace (rev s))"

definition isBlank :: "string \<Rightarrow> bool" where
  \<comment> \<open>a line of white space only, the empty line included\<close>
  "isBlank l = list_all isWhiteSpace l"

definition lastVisibleLine :: "string \<Rightarrow> string" where
  \<comment> \<open>the last line of a document that holds a character other than white space;
      the empty string when there is none\<close>
  "lastVisibleLine c = (case dropWhile isBlank (rev (split_str c)) of [] \<Rightarrow> [] | l # _ \<Rightarrow> l)"

definition lastVisible :: "string list \<Rightarrow> string" where
  \<comment> \<open>the same, of a list of lines\<close>
  "lastVisible ls = (case dropWhile isBlank (rev ls) of [] \<Rightarrow> [] | l # _ \<Rightarrow> l)"

definition trimStartLines :: "string list \<Rightarrow> string list" where
  \<comment> \<open>the lines of a document once the white space at its start is removed\<close>
  "trimStartLines ls =
     (case dropWhile isBlank ls of [] \<Rightarrow> [[]] | l # r \<Rightarrow> dropWhile isWhiteSpace l # r)"

definition trimEndLines :: "string list \<Rightarrow> string list" where
  \<comment> \<open>the lines of a document once the white space at its end is removed\<close>
  "trimEndLines ls =
     (case dropWhile isBlank (rev ls) of [] \<Rightarrow> [[]] | l # r \<Rightarrow> rev r @ [trimEnd l])"

definition spliceable :: "string \<Rightarrow> string \<Rightarrow> string \<Rightarrow> bool" where
  \<comment> \<open>the lines that \<open>dependencyLine\<close> rewrites: with the identity tag, without the
      dependency tag, ending in a closing bracket\<close>
  "spliceable f t s \<longleftrightarrow>
     includes_str s (''[id:'' @ t @ '']'') \<and> \<not> includes_str s (''[dependsOn:'' @ f @ '']'')
     \<and> s \<noteq> [] \<and> last s = CHR '']''"

section \<open>Substrings\<close>

lemma includes_str_iff: "includes_str s pat \<longleftrightarrow> (\<exists>a b. s = a @ pat @ b)"
proof (induction s)
  case Nil
  then show ?case by auto
next
  case (Cons c cs)
  have "(\<exists>a b. c # cs = a @ pat @ b) \<longleftrightarrow> prefix pat (c # cs) \<or> (\<exists>a b. cs = a @ pat @ b)"
  proof
    assume "\<exists>a b. c # cs = a @ pat @ b"
    then obtain a b where ab: "c # cs = a @ pat @ b" by blast
    show "prefix pat (c # cs) \<or> (\<exists>a b. cs = a @ pat @ b)"
    proof (cases a)
      case Nil
      with ab show ?thesis by (auto simp: prefix_def)
    next
      case (Cons x a')
      with ab show ?thesis by auto
    qed
  next
    assume "prefix pat (c # cs) \<or> (\<exists>a b. cs = a @ pat @ b)"
    then show "\<exists>a b. c # cs = a @ pat @ b"
    proof
      assume "prefix pat (c # cs)"
      then obtain b where "c # cs = pat @ b" by (auto simp: prefix_def)
      then have "c # cs = [] @ pat @ b" by simp
      then show ?thesis by blast
    next
      assume "\<exists>a b. cs = a @ pat @ b"
      then obtain a b where "cs = a @ pat @ b" by blast
      then have "c # cs = (c # a) @ pat @ b" by simp
      then show ?thesis by blast
    qed
  qed
  with Cons show ?case by simp
qed

lemma includes_str_set: "includes_str s pat \<Longrightarrow> set pat \<subseteq> set s"
  by (auto simp: includes_str_iff)


lemma includes_str_Nil [simp]: "includes_str s []"
  by (cases s) auto



section \<open>Lines, joining and trimming\<close>

lemma split_str_not_Nil [simp]: "split_str s \<noteq> []"
  by (induction s) (auto split: list.splits)

lemma joinLines_Cons_Cons: "joinLines ((c # l) # ls) = c # joinLines (l # ls)"
  by (cases ls) auto

lemma joinLines_split_str [simp]: "joinLines (split_str s) = s"
proof (induction s)
  case Nil
  then show ?case by simp
next
  case (Cons c cs)
  obtain l ls where sp: "split_str cs = l # ls"
    by (cases "split_str cs") auto
  with Cons show ?case by (auto simp: joinLines_Cons_Cons)
qed

lemma split_str_no_newline: "l \<in> set (split_str s) \<Longrightarrow> CHR 0x0A \<notin> set l"
proof (induction s arbitrary: l)
  case Nil
  then show ?case by simp
next
  case (Cons c cs)
  obtain k ks where sp: "split_str cs = k # ks"
    by (cases "split_str cs") auto
  show ?case
  proof (cases "c = CHR 0x0A")
    case True
    with Cons.prems have "l = [] \<or> l \<in> set (split_str cs)" by simp
    with Cons.IH show ?thesis by auto
  next
    case False
    with Cons.prems sp have "l = c # k \<or> l \<in> set ks" by simp
    moreover have "CHR 0x0A \<notin> set k" using Cons.IH[of k] sp by simp
    moreover have "l \<in> set ks \<Longrightarrow> CHR 0x0A \<notin> set l" using Cons.IH[of l] sp by simp
    ultimately show ?thesis using False by auto
  qed
qed

lemma split_str_append_newline:
  "CHR 0x0A \<notin> set l \<Longrightarrow> split_str (l @ CHR 0x0A # rest) = l # split_str rest"
  by (induction l) auto

lemma split_str_single: "CHR 0x0A \<notin> set l \<Longrightarrow> split_str l = [l]"
  by (induction l) auto

lemma split_str_joinLines:
  "ls \<noteq> [] \<Longrightarrow> \<forall>l\<in>set ls. CHR 0x0A \<notin> set l \<Longrightarrow> split_str (joinLines ls) = ls"
  by (induction ls rule: joinLines.induct)
     (auto simp: split_str_single split_str_append_newline)

lemma concat_lines_joinLines:
  "ls \<noteq> [] \<Longrightarrow> concat (map (\<lambda>l. l @ [CHR 0x0A]) ls) = joinLines ls @ [CHR 0x0A]"
  by (induction ls rule: joinLines.induct) auto

lemma foldl_lines:
  "foldl (\<lambda>u l. u @ g l @ [CHR 0x0A]) acc ls = acc @ concat (map (\<lambda>l. g l @ [CHR 0x0A]) ls)"
  by (induction ls arbitrary: acc) auto

lemma isWhiteSpace_newline [simp]: "isWhiteSpace (CHR 0x0A)"
  by (simp add: isWhiteSpace_def)

lemma trim_append_newline [simp]: "trim (x @ [CHR 0x0A]) = trim x"
proof (cases "\<forall>c\<in>set x. isWhiteSpace c")
  case True
  then have "dropWhile isWhiteSpace (x @ [CHR 0x0A]) = dropWhile isWhiteSpace [CHR 0x0A]"
    by (intro dropWhile_append2) simp
  then have e1: "dropWhile isWhiteSpace (x @ [CHR 0x0A]) = []" by simp
  from True have e2: "dropWhile isWhiteSpace x = []" by simp
  show ?thesis unfolding trim_def e1 e2 by simp
next
  case False
  then obtain c where "c \<in> set x" "\<not> isWhiteSpace c" by blast
  then have "dropWhile isWhiteSpace (x @ [CHR 0x0A]) = dropWhile isWhiteSpace x @ [CHR 0x0A]"
    by (rule dropWhile_append1)
  then show ?thesis by (simp add: trim_def)
qed

lemma trim_id:
  assumes "x = [] \<or> (\<not> isWhiteSpace (hd x) \<and> \<not> isWhiteSpace (last x))"
  shows "trim x = x"
proof (cases "x = []")
  case True
  then show ?thesis by (simp add: trim_def)
next
  case False
  with assms have h: "\<not> isWhiteSpace (hd x)" and l: "\<not> isWhiteSpace (last x)" by auto
  from False h have "dropWhile isWhiteSpace x = x" by (cases x) auto
  moreover from False l have "dropWhile isWhiteSpace (rev x) = rev x"
    by (cases x rule: rev_cases) auto
  ultimately show ?thesis by (simp add: trim_def)
qed

lemma trim_fixed:
  assumes "trim x = x" "x \<noteq> []"
  shows "\<not> isWhiteSpace (hd x) \<and> \<not> isWhiteSpace (last x)"
proof -
  have len: "length (trim x) \<le> length (dropWhile isWhiteSpace x)"
    unfolding trim_def using length_dropWhile_le[of isWhiteSpace "rev (dropWhile isWhiteSpace x)"]
    by simp
  have a: "\<not> isWhiteSpace (hd x)"
  proof
    assume "isWhiteSpace (hd x)"
    with assms(2) have "length (dropWhile isWhiteSpace x) < length x"
      by (cases x) (auto simp: le_imp_less_Suc length_dropWhile_le)
    with len assms(1) show False by simp
  qed
  with assms(2) have dw: "dropWhile isWhiteSpace x = x" by (cases x) auto
  have b: "\<not> isWhiteSpace (last x)"
  proof
    assume "isWhiteSpace (last x)"
    with assms(2) have "length (dropWhile isWhiteSpace (rev x)) < length x"
      using length_dropWhile_le[of isWhiteSpace "rev (butlast x)"]
      by (cases x rule: rev_cases) (auto simp: less_Suc_eq_le)
    then have "length (trim x) < length x" by (simp add: trim_def dw)
    with assms(1) show False by simp
  qed
  from a b show ?thesis ..
qed

lemma joinLines_eq_Nil: "joinLines ls = [] \<longleftrightarrow> ls = [] \<or> ls = [[]]"
  by (induction ls rule: joinLines.induct) auto

lemma joinLines_hd: "ls \<noteq> [] \<Longrightarrow> hd ls \<noteq> [] \<Longrightarrow> hd (joinLines ls) = hd (hd ls)"
  by (induction ls rule: joinLines.induct) auto

lemma joinLines_last: "ls \<noteq> [] \<Longrightarrow> last ls \<noteq> [] \<Longrightarrow> last (joinLines ls) = last (last ls)"
proof (induction ls rule: joinLines.induct)
  case 1
  then show ?case by simp
next
  case (2 l)
  then show ?case by simp
next
  case (3 l l' ls)
  from 3(3) have "l' # ls \<noteq> [[]]" by auto
  then have "joinLines (l' # ls) \<noteq> []" by (simp add: joinLines_eq_Nil)
  with 3 show ?case by simp
qed

lemma joinLines_hd_empty:
  "hd ls = [] \<Longrightarrow> joinLines ls \<noteq> [] \<Longrightarrow> hd (joinLines ls) = CHR 0x0A"
  by (induction ls rule: joinLines.induct) auto

lemma joinLines_last_empty:
  "ls \<noteq> [] \<Longrightarrow> last ls = [] \<Longrightarrow> joinLines ls \<noteq> [] \<Longrightarrow> last (joinLines ls) = CHR 0x0A"
proof (induction ls rule: joinLines.induct)
  case 1
  then show ?case by simp
next
  case (2 l)
  then show ?case by simp
next
  case (3 l l' ls)
  show ?case
  proof (cases "joinLines (l' # ls) = []")
    case True
    then show ?thesis by simp
  next
    case False
    with 3 show ?thesis by simp
  qed
qed

lemma joinLines_not_Nil: "ls \<noteq> [] \<Longrightarrow> hd ls \<noteq> [] \<Longrightarrow> joinLines ls \<noteq> []"
  by (induction ls rule: joinLines.induct) auto

lemma rewrite_trimmed:
  assumes g: "gentle g" and c: "trim c = c"
  shows "trim (foldl (\<lambda>u l. u @ g l @ [CHR 0x0A]) [] (split_str c))
           = joinLines (map g (split_str c))"
    and "split_str (joinLines (map g (split_str c))) = map g (split_str c)"
    and "trim (joinLines (map g (split_str c))) = joinLines (map g (split_str c))"
proof -
  let ?ls = "split_str c"
  let ?y = "joinLines (map g ?ls)"
  have ne: "?ls \<noteq> []" by simp
  have cat: "foldl (\<lambda>u l. u @ g l @ [CHR 0x0A]) [] ?ls = ?y @ [CHR 0x0A]"
    using concat_lines_joinLines[of "map g ?ls"] ne
    by (simp add: foldl_lines comp_def)
  have nonl: "\<forall>l\<in>set (map g ?ls). CHR 0x0A \<notin> set l"
    using g split_str_no_newline[of _ c] by (auto simp: gentle_def)
  show sp: "split_str ?y = map g ?ls"
    using split_str_joinLines[OF _ nonl] ne by simp
  have ty: "trim ?y = ?y"
  proof (cases "c = []")
    case True
    from g have "g [] = []" by (auto simp: gentle_def)
    with True show ?thesis by (simp add: trim_def)
  next
    case False
    from trim_fixed[OF c False] have hc: "\<not> isWhiteSpace (hd c)" and lc: "\<not> isWhiteSpace (last c)"
      by auto
    have jc: "joinLines ?ls = c" by simp
    have ws: "isWhiteSpace (CHR 0x0A)" by simp
    have h1: "hd ?ls \<noteq> []"
    proof
      assume "hd ?ls = []"
      from joinLines_hd_empty[OF this] jc False have "hd c = CHR 0x0A" by simp
      with hc ws show False by simp
    qed
    have l1: "last ?ls \<noteq> []"
    proof
      assume "last ?ls = []"
      from joinLines_last_empty[OF ne this] jc False have "last c = CHR 0x0A" by simp
      with lc ws show False by simp
    qed
    have hdc: "hd c = hd (hd ?ls)" using joinLines_hd[OF ne h1] jc by simp
    have lastc: "last c = last (last ?ls)" using joinLines_last[OF ne l1] jc by simp
    have mne: "map g ?ls \<noteq> []" using ne by simp
    have hm: "hd (map g ?ls) = g (hd ?ls)" using ne by (simp add: hd_map)
    have lm: "last (map g ?ls) = g (last ?ls)" using ne by (simp add: last_map)
    have h2: "hd (map g ?ls) \<noteq> []" using g h1 hm by (simp add: gentle_def)
    have l2: "last (map g ?ls) \<noteq> []" using g l1 lm by (simp add: gentle_def)
    have gh: "hd (g (hd ?ls)) = hd (hd ?ls)" using g h1 unfolding gentle_def by blast
    have gl: "last (g (last ?ls)) = last (last ?ls)" using g l1 unfolding gentle_def by blast
    have "hd ?y = hd c"
      using joinLines_hd[OF mne h2] hm gh hdc by simp
    moreover have "last ?y = last c"
      using joinLines_last[OF mne l2] lm gl lastc by simp
    ultimately have "\<not> isWhiteSpace (hd ?y) \<and> \<not> isWhiteSpace (last ?y)"
      using hc lc by simp
    then show ?thesis by (intro trim_id) simp
  qed
  then show "trim ?y = ?y" .
  show "trim (foldl (\<lambda>u l. u @ g l @ [CHR 0x0A]) [] ?ls) = ?y"
    using cat ty by simp
qed

section \<open>The line rewriting of the two mutations\<close>

lemma includes_str_marker:
  "d = CHR '' '' \<or> d = CHR ''x'' \<Longrightarrow>
   includes_str (CHR ''-'' # CHR '' '' # CHR ''['' # d # CHR '']'' # r) (CHR ''['' # CHR ''i'' # q)
     = includes_str r (CHR ''['' # CHR ''i'' # q)"
  by auto

lemma replace_str_prefix: "prefix pat s \<Longrightarrow> replace_str s pat rep = rep @ drop (length pat) s"
  by (cases s) auto

lemma toggleLine_cases:
  obtains (same) "toggleLine t l = l"
      "\<not> (includes_str l (''[id:'' @ t @ '']'') \<and> (startsWith l ''- [ ]'' \<or> startsWith l ''- [x]''))"
    | (check) r where "l = ''- [ ]'' @ r" "toggleLine t l = ''- [x]'' @ r"
        "includes_str r (''[id:'' @ t @ '']'')"
    | (uncheck) r where "l = ''- [x]'' @ r" "toggleLine t l = ''- [ ]'' @ r"
        "includes_str r (''[id:'' @ t @ '']'')"
proof (cases "includes_str l (''[id:'' @ t @ '']'')")
  case False
  then have "toggleLine t l = l" by (simp add: toggleLine_def)
  with False same show ?thesis by blast
next
  case inc: True
  show ?thesis
  proof (cases "startsWith l ''- [ ]''")
    case True
    then obtain r where l: "l = ''- [ ]'' @ r" by (auto simp: startsWith_def prefix_def)
    have "toggleLine t l = ''- [x]'' @ r"
      using inc True by (simp add: toggleLine_def replace_str_prefix startsWith_def l)
    moreover have "includes_str r (''[id:'' @ t @ '']'')"
      using inc includes_str_marker[of "CHR '' ''" r "''d:'' @ t @ '']''"] by (simp add: l)
    ultimately show ?thesis using l check by blast
  next
    case nsp: False
    show ?thesis
    proof (cases "startsWith l ''- [x]''")
      case True
      then obtain r where l: "l = ''- [x]'' @ r" by (auto simp: startsWith_def prefix_def)
      have "toggleLine t l = ''- [ ]'' @ r"
        using inc True nsp by (simp add: toggleLine_def replace_str_prefix startsWith_def l)
      moreover have "includes_str r (''[id:'' @ t @ '']'')"
        using inc includes_str_marker[of "CHR ''x''" r "''d:'' @ t @ '']''"] by (simp add: l)
      ultimately show ?thesis using l uncheck by blast
    next
      case False
      with nsp inc have "toggleLine t l = l" by (simp add: toggleLine_def)
      with False nsp same show ?thesis by blast
    qed
  qed
qed

lemma toggleLine_marked:
  assumes "includes_str r (''[id:'' @ t @ '']'')"
  shows "toggleLine t (''- [ ]'' @ r) = ''- [x]'' @ r"
    and "toggleLine t (''- [x]'' @ r) = ''- [ ]'' @ r"
proof -
  have a: "includes_str (''- [ ]'' @ r) (''[id:'' @ t @ '']'')"
    using assms includes_str_marker[of "CHR '' ''" r "''d:'' @ t @ '']''"] by simp
  have b: "includes_str (''- [x]'' @ r) (''[id:'' @ t @ '']'')"
    using assms includes_str_marker[of "CHR ''x''" r "''d:'' @ t @ '']''"] by simp
  show "toggleLine t (''- [ ]'' @ r) = ''- [x]'' @ r"
    using a by (simp add: toggleLine_def replace_str_prefix startsWith_def)
  show "toggleLine t (''- [x]'' @ r) = ''- [ ]'' @ r"
    using b by (simp add: toggleLine_def replace_str_prefix startsWith_def)
qed

lemma toggleLine_involution: "toggleLine t (toggleLine t l) = l"
proof (cases t l rule: toggleLine_cases)
  case same
  then show ?thesis by simp
next
  case (check r)
  then show ?thesis by (simp add: toggleLine_marked del: append.simps)
next
  case (uncheck r)
  then show ?thesis by (simp add: toggleLine_marked del: append.simps)
qed

lemma gentle_toggleLine: "gentle (toggleLine t)"
  unfolding gentle_def
proof (intro allI)
  fix l
  show "(toggleLine t l = [] \<longleftrightarrow> l = []) \<and>
        (l \<noteq> [] \<longrightarrow> hd (toggleLine t l) = hd l \<and> last (toggleLine t l) = last l) \<and>
        (CHR 0x0A \<notin> set l \<longrightarrow> CHR 0x0A \<notin> set (toggleLine t l))"
    by (cases t l rule: toggleLine_cases) auto
qed

lemma taskMatch_marker:
  "map_option snd (taskMatch (''- [x]'' @ r)) = map_option snd (taskMatch (''- [ ]'' @ r))"
  by (simp add: taskMatchAt_def)

lemma parseLine_group:
  "map_option snd (taskMatch l') = map_option snd (taskMatch l) \<Longrightarrow>
   parseLine l' = map_option (\<lambda>p. p\<lparr>checked := includes_str l' ''- [x]''\<rparr>) (parseLine l)"
  by (cases "taskMatch l"; cases "taskMatch l'") (auto simp: parseLine_def Let_def)

lemma parseLine_toggleLine:
  "parseLine (toggleLine t l) =
     map_option (\<lambda>p. p\<lparr>checked := includes_str (toggleLine t l) ''- [x]''\<rparr>) (parseLine l)"
proof (rule parseLine_group, cases t l rule: toggleLine_cases)
  case same
  then show "map_option snd (taskMatch (toggleLine t l)) = map_option snd (taskMatch l)" by simp
next
  case (check r)
  then show "map_option snd (taskMatch (toggleLine t l)) = map_option snd (taskMatch l)"
    using taskMatch_marker[of r] by simp
next
  case (uncheck r)
  then show "map_option snd (taskMatch (toggleLine t l)) = map_option snd (taskMatch l)"
    using taskMatch_marker[of r] by simp
qed

lemma getSubstitution_literal:
  "CHR ''$'' \<notin> set template \<Longrightarrow> getSubstitution m b a template = template"
  by (induction m b a template rule: getSubstitution.induct) auto

lemma not_isWordChar [simp]:
  "\<not> isWordChar (CHR ''$'')" "\<not> isWordChar (CHR 0x0A)" "\<not> isWordChar (CHR ''['')"
  "\<not> isWordChar (CHR '']'')" "\<not> isWordChar (CHR '' '')" "\<not> isWordChar (CHR '':'')"
  by (simp_all add: isWordChar_def)

lemma isWord_all: "isWord w \<Longrightarrow> c \<in> set w \<Longrightarrow> isWordChar c"
  by (simp add: isWord_def list_all_iff)

lemma isWord_chars:
  assumes "isWord w"
  shows "CHR ''$'' \<notin> set w" "CHR 0x0A \<notin> set w" "CHR ''['' \<notin> set w" "CHR '']'' \<notin> set w"
    "CHR '' '' \<notin> set w" "CHR '':'' \<notin> set w"
  using isWord_all[OF assms] not_isWordChar by blast+

lemma replace_trailing_bracket_tag:
  assumes "CHR ''$'' \<notin> set f"
  shows "replace_trailing_bracket l ('' [dependsOn:'' @ f @ '']]'') =
           (if l \<noteq> [] \<and> last l = CHR '']'' then butlast l @ '' [dependsOn:'' @ f @ '']]'' else l)"
  using assms by (simp add: replace_trailing_bracket_def getSubstitution_literal)

lemma dependencyLine_eq:
  assumes "CHR ''$'' \<notin> set f"
  shows "dependencyLine f t l =
           (if includes_str l (''[id:'' @ t @ '']'')
               \<and> \<not> includes_str l (''[dependsOn:'' @ f @ '']'')
               \<and> l \<noteq> [] \<and> last l = CHR '']''
            then butlast l @ '' [dependsOn:'' @ f @ '']]'' else l)"
  unfolding dependencyLine_def replace_trailing_bracket_tag[OF assms] by simp

lemma dependencyLine_splice:
  assumes "CHR ''$'' \<notin> set f" "dependencyLine f t l \<noteq> l"
  shows "includes_str l (''[id:'' @ t @ '']'')"
    and "\<not> includes_str l (''[dependsOn:'' @ f @ '']'')"
    and "l \<noteq> []" and "last l = CHR '']''"
    and "dependencyLine f t l = butlast l @ '' [dependsOn:'' @ f @ '']]''"
  using assms(2) unfolding dependencyLine_eq[OF assms(1)] by (auto split: if_splits)

lemma includes_str_spliced:
  "includes_str (u @ '' [dependsOn:'' @ f @ '']]'') (''[dependsOn:'' @ f @ '']'')"
proof -
  have "u @ '' [dependsOn:'' @ f @ '']]'' = (u @ '' '') @ (''[dependsOn:'' @ f @ '']'') @ '']''"
    by simp
  then show ?thesis unfolding includes_str_iff by blast
qed

lemma dependencyLine_idem:
  assumes "CHR ''$'' \<notin> set f"
  shows "dependencyLine f t (dependencyLine f t l) = dependencyLine f t l"
proof (cases "dependencyLine f t l = l")
  case True
  then show ?thesis by simp
next
  case False
  note sp = dependencyLine_splice[OF assms False]
  have "dependencyLine f t (butlast l @ '' [dependsOn:'' @ f @ '']]'')
          = butlast l @ '' [dependsOn:'' @ f @ '']]''"
    unfolding dependencyLine_eq[OF assms] using includes_str_spliced[of "butlast l" f]
    by (simp only: simp_thms if_False)
  with sp(5) show ?thesis by simp
qed

lemma gentle_dependencyLine:
  assumes "CHR ''$'' \<notin> set f" "CHR 0x0A \<notin> set f"
  shows "gentle (dependencyLine f t)"
  unfolding gentle_def
proof (intro allI)
  fix l
  show "(dependencyLine f t l = [] \<longleftrightarrow> l = []) \<and>
        (l \<noteq> [] \<longrightarrow> hd (dependencyLine f t l) = hd l \<and> last (dependencyLine f t l) = last l) \<and>
        (CHR 0x0A \<notin> set l \<longrightarrow> CHR 0x0A \<notin> set (dependencyLine f t l))"
  proof (cases "dependencyLine f t l = l")
    case True
    then show ?thesis by simp
  next
    case False
    note sp = dependencyLine_splice[OF assms(1) False]
    from sp(1) have "set (''[id:'' @ t @ '']'') \<subseteq> set l" by (rule includes_str_set)
    then have br: "CHR ''['' \<in> set l" by auto
    obtain b where l: "l = b @ [CHR '']'']"
      using sp(3,4) by (cases l rule: rev_cases) auto
    with br have bne: "b \<noteq> []" by auto
    have d: "dependencyLine f t l = b @ '' [dependsOn:'' @ f @ '']]''"
      using sp(5) l by simp
    have 1: "dependencyLine f t l \<noteq> []" using d bne by simp
    have 2: "hd (dependencyLine f t l) = hd l" using d bne l by simp
    have 3: "last (dependencyLine f t l) = last l" using d l by simp
    have 4: "CHR 0x0A \<notin> set l \<Longrightarrow> CHR 0x0A \<notin> set (dependencyLine f t l)"
      using d l assms(2) by simp
    from 1 2 3 4 sp(3) show ?thesis by blast
  qed
qed

lemma files_modify [simp]: "files (modify v f d) = files v"
  by (simp add: modify_def)

lemma rewrite_loop:
  "distinct fs \<Longrightarrow>
   files (foldl (\<lambda>v file. modify v file (rw (read v file))) v fs) = files v \<and>
   contents (foldl (\<lambda>v file. modify v file (rw (read v file))) v fs) =
     (\<lambda>file. if file \<in> set fs then rw (contents v file) else contents v file) \<and>
   modified (foldl (\<lambda>v file. modify v file (rw (read v file))) v fs) =
     modified v @ map (\<lambda>file. (file, rw (contents v file))) fs"
proof (induction fs arbitrary: v)
  case Nil
  show ?case by simp
next
  case (Cons f fs)
  let ?v = "modify v f (rw (read v f))"
  from Cons.prems have d: "distinct fs" and nf: "f \<notin> set fs" by auto
  note IH = Cons.IH[OF d, of ?v]
  have c: "contents ?v = (contents v)(f := rw (contents v f))"
    by (simp add: modify_def read_def)
  have m: "modified ?v = modified v @ [(f, rw (contents v f))]"
    by (simp add: modify_def read_def)
  have same: "map (\<lambda>file. (file, rw (contents ?v file))) fs
               = map (\<lambda>file. (file, rw (contents v file))) fs"
    using nf by (auto simp: c)
  have 1: "files (foldl (\<lambda>v file. modify v file (rw (read v file))) v (f # fs)) = files v"
    using IH by simp
  have 2: "contents (foldl (\<lambda>v file. modify v file (rw (read v file))) v (f # fs)) =
     (\<lambda>file. if file \<in> set (f # fs) then rw (contents v file) else contents v file)"
    using IH nf by (auto simp: c fun_eq_iff)
  have 3: "modified (foldl (\<lambda>v file. modify v file (rw (read v file))) v (f # fs)) =
     modified v @ map (\<lambda>file. (file, rw (contents v file))) (f # fs)"
    using IH same by (simp add: m)
  from 1 2 3 show ?case by blast
qed

section \<open>The build as a filter of the candidates\<close>

lemma foldl_fileLoop:
  "foldl (fileLoop v) st fs =
     foldl lineCallback st (concat (map (\<lambda>file. split_str (read v file)) fs))"
  by (induction fs arbitrary: st) (auto simp: fileLoop_def)

lemma getTasksFromNotes_allLines:
  "getTasksFromNotes v =
     tasks (foldl lineCallback \<lparr>tasks = [], taskIds = {}, uniqueId = 1\<rparr> (allLines v))"
  by (simp add: getTasksFromNotes_def allLines_def foldl_fileLoop)

lemma lineCallback_None: "parseLine l = None \<Longrightarrow> lineCallback st l = st"
  by (simp add: lineCallback_def)

lemma lineCallback_explicit:
  "parseLine l = Some p \<Longrightarrow> idTag p = Some w \<Longrightarrow>
   lineCallback st l =
     (if w \<in> taskIds st then st
      else st\<lparr>taskIds := insert w (taskIds st), tasks := tasks st @ [taskOf w p]\<rparr>)"
  by (simp add: lineCallback_def taskOf_def)

lemma lineCallback_synth:
  "parseLine l = Some p \<Longrightarrow> idTag p = None \<Longrightarrow>
   lineCallback st l =
     (if ''task'' @ numToString (uniqueId st) \<in> taskIds st
      then st\<lparr>uniqueId := uniqueId st + 1\<rparr>
      else st\<lparr>uniqueId := uniqueId st + 1,
              taskIds := insert (''task'' @ numToString (uniqueId st)) (taskIds st),
              tasks := tasks st @ [taskOf (''task'' @ numToString (uniqueId st)) p]\<rparr>)"
  by (simp add: lineCallback_def taskOf_def Let_def)

lemma tasks_foldl_lineCallback:
  "tasks (foldl lineCallback st ls) =
     tasks st @ keepNew (taskIds st) (candidates (uniqueId st) ls)"
proof (induction ls arbitrary: st)
  case Nil
  show ?case by simp
next
  case (Cons l ls)
  show ?case
  proof (cases "parseLine l")
    case None
    then show ?thesis using Cons.IH[of st] by (simp add: lineCallback_None)
  next
    case (Some p)
    show ?thesis
    proof (cases "idTag p")
      case None
      show ?thesis
        using Cons.IH[of "lineCallback st l"] Some None
        by (simp add: lineCallback_synth taskOf_def)
    next
      case (Some w)
      show ?thesis
        using Cons.IH[of "lineCallback st l"] \<open>parseLine l = Some p\<close> Some
        by (simp add: lineCallback_explicit taskOf_def)
    qed
  qed
qed

lemma keepNew_ids:
  "distinct (map id_t (keepNew seen cs)) \<and> set (map id_t (keepNew seen cs)) \<inter> seen = {}"
proof (induction cs arbitrary: seen)
  case Nil
  show ?case by simp
next
  case (Cons c cs)
  show ?case
  proof (cases "id_t c \<in> seen")
    case True
    then show ?thesis using Cons.IH[of seen] by simp
  next
    case False
    then show ?thesis using Cons.IH[of "insert (id_t c) seen"] by auto
  qed
qed

lemma keepNew_index:
  "keepNew seen cs =
     map (\<lambda>i. cs ! i)
         (filter (\<lambda>i. id_t (cs ! i) \<notin> seen \<and> (\<forall>j<i. id_t (cs ! j) \<noteq> id_t (cs ! i)))
                 [0..<length cs])"
proof (induction cs arbitrary: seen)
  case Nil
  show ?case by simp
next
  case (Cons c cs)
  have upt: "[0..<length (c # cs)] = 0 # map Suc [0..<length cs]"
    by (simp add: upt_conv_Cons map_Suc_upt del: upt_Suc)
  show ?case
  proof (cases "id_t c \<in> seen")
    case True
    have "filter (\<lambda>i. id_t (cs ! i) \<notin> seen \<and> (\<forall>j<i. id_t (cs ! j) \<noteq> id_t (cs ! i))) [0..<length cs]
        = filter (\<lambda>i. id_t (cs ! i) \<notin> seen \<and> (\<forall>j<Suc i. id_t ((c # cs) ! j) \<noteq> id_t (cs ! i))) [0..<length cs]"
      using True by (intro filter_cong) (auto simp: All_less_Suc2)
    with True show ?thesis
      unfolding upt using Cons.IH[of seen]
      by (simp add: filter_map comp_def)
  next
    case False
    have "filter (\<lambda>i. id_t (cs ! i) \<notin> insert (id_t c) seen \<and> (\<forall>j<i. id_t (cs ! j) \<noteq> id_t (cs ! i))) [0..<length cs]
        = filter (\<lambda>i. id_t (cs ! i) \<notin> seen \<and> (\<forall>j<Suc i. id_t ((c # cs) ! j) \<noteq> id_t (cs ! i))) [0..<length cs]"
      by (intro filter_cong) (auto simp: All_less_Suc2)
    with False show ?thesis
      unfolding upt using Cons.IH[of "insert (id_t c) seen"]
      by (simp add: filter_map comp_def)
  qed
qed

lemma keepNew_all:
  "distinct (map id_t cs) \<Longrightarrow> set (map id_t cs) \<inter> seen = {} \<Longrightarrow> keepNew seen cs = cs"
  by (induction cs arbitrary: seen) auto

section \<open>Where the task pattern matches\<close>

lemma taskMatchAt_marked:
  "d = CHR '' '' \<or> d = CHR ''x'' \<Longrightarrow>
   taskMatchAt (CHR ''-'' # CHR '' '' # CHR ''['' # d # CHR '']'' # CHR '' '' # r) =
     (if takeWhile isDot r = [] then None
      else Some (CHR ''-'' # CHR '' '' # CHR ''['' # d # CHR '']'' # CHR '' '' # takeWhile isDot r,
                 takeWhile isDot r))"
  by (auto simp: taskMatchAt_def)

lemma taskMatchAt_Some_shape:
  assumes "taskMatchAt s \<noteq> None"
  obtains d r where "s = CHR ''-'' # CHR '' '' # CHR ''['' # d # CHR '']'' # CHR '' '' # r"
    "d = CHR '' '' \<or> d = CHR ''x''"
proof -
  from assms have "prefix ''- [ ] '' s \<or> prefix ''- [x] '' s"
    unfolding taskMatchAt_def by (simp split: if_splits)
  then show thesis
  proof
    assume "prefix ''- [ ] '' s"
    then obtain r where "s = ''- [ ] '' @ r" by (rule prefixE)
    then have "s = CHR ''-'' # CHR '' '' # CHR ''['' # CHR '' '' # CHR '']'' # CHR '' '' # r" by simp
    then show thesis using that by blast
  next
    assume "prefix ''- [x] '' s"
    then obtain r where "s = ''- [x] '' @ r" by (rule prefixE)
    then have "s = CHR ''-'' # CHR '' '' # CHR ''['' # CHR ''x'' # CHR '']'' # CHR '' '' # r" by simp
    then show thesis using that by blast
  qed
qed

lemma takeWhile_Nil_iff: "takeWhile P xs = [] \<longleftrightarrow> xs = [] \<or> \<not> P (hd xs)"
  by (cases xs) auto

lemma taskMatchAt_iff:
  "taskMatchAt s \<noteq> None \<longleftrightarrow>
     (\<exists>d c rest. s = ''- ['' @ [d] @ ''] '' @ c # rest \<and> (d = CHR '' '' \<or> d = CHR ''x'')
                   \<and> \<not> isLineTerminator c)"
proof
  assume a: "taskMatchAt s \<noteq> None"
  then obtain d r where s: "s = CHR ''-'' # CHR '' '' # CHR ''['' # d # CHR '']'' # CHR '' '' # r"
    and d: "d = CHR '' '' \<or> d = CHR ''x''" by (rule taskMatchAt_Some_shape)
  from a have "takeWhile isDot r \<noteq> []"
    unfolding s taskMatchAt_marked[OF d] by (simp split: if_splits)
  then obtain c rest where r: "r = c # rest" and c: "isDot c"
    unfolding takeWhile_Nil_iff by (cases r) auto
  have "s = ''- ['' @ [d] @ ''] '' @ c # rest" unfolding s r by simp
  with d c show "\<exists>d c rest. s = ''- ['' @ [d] @ ''] '' @ c # rest \<and> (d = CHR '' '' \<or> d = CHR ''x'')
                   \<and> \<not> isLineTerminator c"
    unfolding isDot_def by blast
next
  assume "\<exists>d c rest. s = ''- ['' @ [d] @ ''] '' @ c # rest \<and> (d = CHR '' '' \<or> d = CHR ''x'')
                   \<and> \<not> isLineTerminator c"
  then obtain d c rest where s: "s = ''- ['' @ [d] @ ''] '' @ c # rest"
    and d: "d = CHR '' '' \<or> d = CHR ''x''" and c: "\<not> isLineTerminator c" by blast
  have s': "s = CHR ''-'' # CHR '' '' # CHR ''['' # d # CHR '']'' # CHR '' '' # c # rest"
    unfolding s by simp
  show "taskMatchAt s \<noteq> None"
    unfolding s' taskMatchAt_marked[OF d] using c by (simp add: isDot_def)
qed

lemma taskMatch_iff:
  "taskMatch l \<noteq> None \<longleftrightarrow> (\<exists>pre post. l = pre @ post \<and> taskMatchAt post \<noteq> None)"
proof (induction l)
  case Nil
  show ?case by (simp add: taskMatchAt_def)
next
  case (Cons c cs)
  have "taskMatch (c # cs) \<noteq> None \<longleftrightarrow> taskMatchAt (c # cs) \<noteq> None \<or> taskMatch cs \<noteq> None"
    by (cases "taskMatchAt (c # cs)") auto
  also have "\<dots> \<longleftrightarrow> taskMatchAt (c # cs) \<noteq> None \<or> (\<exists>pre post. cs = pre @ post \<and> taskMatchAt post \<noteq> None)"
    using Cons by simp
  also have "\<dots> \<longleftrightarrow> (\<exists>pre post. c # cs = pre @ post \<and> taskMatchAt post \<noteq> None)"
  proof
    assume "taskMatchAt (c # cs) \<noteq> None \<or> (\<exists>pre post. cs = pre @ post \<and> taskMatchAt post \<noteq> None)"
    then show "\<exists>pre post. c # cs = pre @ post \<and> taskMatchAt post \<noteq> None"
    proof
      assume "taskMatchAt (c # cs) \<noteq> None"
      then have "c # cs = [] @ (c # cs) \<and> taskMatchAt (c # cs) \<noteq> None" by simp
      then show ?thesis by blast
    next
      assume "\<exists>pre post. cs = pre @ post \<and> taskMatchAt post \<noteq> None"
      then obtain pre post where "cs = pre @ post" "taskMatchAt post \<noteq> None" by blast
      then have "c # cs = (c # pre) @ post \<and> taskMatchAt post \<noteq> None" by simp
      then show ?thesis by blast
    qed
  next
    assume "\<exists>pre post. c # cs = pre @ post \<and> taskMatchAt post \<noteq> None"
    then obtain pre post where pp: "c # cs = pre @ post" "taskMatchAt post \<noteq> None" by blast
    show "taskMatchAt (c # cs) \<noteq> None \<or> (\<exists>pre post. cs = pre @ post \<and> taskMatchAt post \<noteq> None)"
    proof (cases pre)
      case Nil
      with pp show ?thesis by simp
    next
      case (Cons x pre')
      with pp have "cs = pre' @ post" by simp
      with pp(2) show ?thesis by blast
    qed
  qed
  finally show ?case .
qed

lemma parseLine_None_iff: "parseLine l = None \<longleftrightarrow> taskMatch l = None"
  by (cases "taskMatch l") (auto simp: parseLine_def Let_def)

section \<open>The decimal text of the counter\<close>

lemma digit_char_val:
  assumes "d < 10"
  shows "of_char (''0123456789'' ! d) = (48 + d :: nat)"
proof -
  from assms have "d = 0 \<or> d = 1 \<or> d = 2 \<or> d = 3 \<or> d = 4 \<or> d = 5 \<or> d = 6 \<or> d = 7 \<or> d = 8 \<or> d = 9"
    by arith
  then show ?thesis by (elim disjE) simp_all
qed

lemma numToString_inverse:
  "foldl (\<lambda>a c. 10 * a + (of_char c - 48)) (0::nat) (numToString n) = n"
proof (induction n rule: numToString.induct)
  case (1 n)
  show ?case
  proof (cases "n < 10")
    case True
    then have e: "numToString n = [''0123456789'' ! n]"
      by (subst numToString.simps) simp
    show ?thesis unfolding e using digit_char_val[OF True] by simp
  next
    case False
    have m: "n mod 10 < 10" by simp
    from False have e: "numToString n = numToString (n div 10) @ [''0123456789'' ! (n mod 10)]"
      by (subst numToString.simps) simp
    note IH = 1[OF False]
    have "foldl (\<lambda>a c. 10 * a + (of_char c - 48)) (0::nat) (numToString n)
            = 10 * (n div 10) + n mod 10"
      unfolding e foldl_append IH using digit_char_val[OF m] by simp
    then show ?thesis by simp
  qed
qed

lemma numToString_inj:
  assumes "numToString m = numToString n"
  shows "m = n"
proof -
  have "m = foldl (\<lambda>a c. 10 * a + (of_char c - 48)) (0::nat) (numToString m)"
    by (rule numToString_inverse[symmetric])
  also have "\<dots> = foldl (\<lambda>a c. 10 * a + (of_char c - 48)) (0::nat) (numToString n)"
    by (simp only: assms)
  also have "\<dots> = n" by (rule numToString_inverse)
  finally show ?thesis .
qed

lemma candidates_synth:
  "\<forall>l\<in>set ls. \<forall>p. parseLine l = Some p \<longrightarrow> idTag p = None \<Longrightarrow>
   candidates n ls =
     map (\<lambda>(k, p). taskOf (''task'' @ numToString k) p)
         (enumerate n (List.map_filter parseLine ls))"
proof (induction ls arbitrary: n)
  case Nil
  show ?case by (simp add: map_filter_simps)
next
  case (Cons l ls)
  then have IH: "\<And>m. candidates m ls =
     map (\<lambda>(k, p). taskOf (''task'' @ numToString k) p)
         (enumerate m (List.map_filter parseLine ls))" by simp
  show ?case
  proof (cases "parseLine l")
    case None
    then show ?thesis using IH[of n] by (simp add: map_filter_simps)
  next
    case (Some p)
    with Cons.prems have "idTag p = None" by simp
    with Some show ?thesis using IH[of "Suc n"] by (simp add: map_filter_simps)
  qed
qed

lemma synth_ids:
  "map id_t (map (\<lambda>(k, p). taskOf (''task'' @ numToString k) p) (enumerate n ps))
     = map (\<lambda>k. ''task'' @ numToString k) [n..<n + length ps]"
proof -
  have "map id_t (map (\<lambda>(k, p). taskOf (''task'' @ numToString k) p) (enumerate n ps))
      = map (\<lambda>x. ''task'' @ numToString (fst x)) (enumerate n ps)"
    by (simp add: taskOf_def case_prod_beta comp_def)
  also have "\<dots> = map (\<lambda>k. ''task'' @ numToString k) (map fst (enumerate n ps))"
    by (simp only: map_map comp_def)
  also have "\<dots> = map (\<lambda>k. ''task'' @ numToString k) [n..<n + length ps]"
    by (simp only: map_fst_enumerate)
  finally show ?thesis .
qed

lemma synth_ids_distinct:
  "distinct (map (\<lambda>k. ''task'' @ numToString k) [n..<m])"
  by (auto simp: distinct_map inj_on_def dest: numToString_inj)

section \<open>Dependency tags and the projection\<close>

lemma includes_str_skip:
  "c \<notin> set u \<Longrightarrow> includes_str (u @ v) (c # p) = includes_str v (c # p)"
  by (induction u) auto

lemma takeWhile_word:
  assumes "list_all isWordChar w" "\<not> isWordChar x"
  shows "takeWhile isWordChar (w @ x # rest) = w" "dropWhile isWordChar (w @ x # rest) = x # rest"
  using assms by (induction w) auto

lemma dependsOnMatchAt_tag:
  assumes "isWord g" "prefix (''[dependsOn:'' @ g @ '']'') s"
  shows "dependsOnMatchAt s = Some (''[dependsOn:'' @ g @ '']'')"
proof -
  from assms(2) obtain rest where s: "s = (''[dependsOn:'' @ g @ '']'') @ rest" by (rule prefixE)
  have d: "drop 11 s = g @ CHR '']'' # rest" unfolding s by simp
  have p: "prefix ''[dependsOn:'' s" unfolding s by simp
  from assms(1) have w: "list_all isWordChar g" and ne: "g \<noteq> []" by (auto simp: isWord_def)
  have t: "takeWhile isWordChar (drop 11 s) = g" "dropWhile isWordChar (drop 11 s) = CHR '']'' # rest"
    unfolding d using takeWhile_word[OF w, of "CHR '']''" rest] by simp_all
  show ?thesis unfolding dependsOnMatchAt_def t using p ne by simp
qed

lemma dependsOnMatchAt_Some:
  assumes "dependsOnMatchAt s = Some m"
  obtains rest where "s = m @ rest" "CHR ''['' \<notin> set (tl m)" "m \<noteq> []"
proof -
  let ?w = "takeWhile isWordChar (drop 11 s)"
  let ?r = "dropWhile isWordChar (drop 11 s)"
  from assms have p: "prefix ''[dependsOn:'' s" and b: "prefix '']'' ?r"
    and m: "m = ''[dependsOn:'' @ ?w @ '']''"
    unfolding dependsOnMatchAt_def by (auto split: if_splits)
  from p obtain t where s: "s = ''[dependsOn:'' @ t" by (rule prefixE)
  from b obtain rest where r: "?r = '']'' @ rest" by (rule prefixE)
  have "drop 11 s = ?w @ ?r" by simp
  then have "t = ?w @ '']'' @ rest" unfolding r using s by simp
  then have 1: "s = m @ rest" unfolding m using s by simp
  have "\<forall>c\<in>set ?w. isWordChar c" by (auto dest: set_takeWhileD)
  then have "CHR ''['' \<notin> set ?w" using not_isWordChar by blast
  then have 2: "CHR ''['' \<notin> set (tl m)" unfolding m by simp
  have 3: "m \<noteq> []" unfolding m by simp
  from 1 2 3 show thesis by (rule that)
qed

lemma dependsOnMatch_includes:
  assumes "isWord g"
  shows "includes_str s (''[dependsOn:'' @ g @ '']'')
           \<Longrightarrow> ''[dependsOn:'' @ g @ '']'' \<in> set (dependsOnMatch s)"
proof (induction s rule: dependsOnMatch.induct)
  case 1
  then show ?case by simp
next
  case (2 c cs)
  let ?tag = "''[dependsOn:'' @ g @ '']''"
  show ?case
  proof (cases "prefix ?tag (c # cs)")
    case True
    then have "dependsOnMatchAt (c # cs) = Some ?tag" by (rule dependsOnMatchAt_tag[OF assms])
    then show ?thesis by simp
  next
    case False
    from "2.prems" have "prefix ?tag (c # cs) \<or> includes_str cs ?tag"
      by (simp only: includes_str.simps)
    with False have inc: "includes_str cs ?tag" by blast
    show ?thesis
    proof (cases "dependsOnMatchAt (c # cs)")
      case None
      from "2.IH"(1)[OF None inc] None show ?thesis by simp
    next
      case (Some m)
      then obtain rest where s: "c # cs = m @ rest" and nb: "CHR ''['' \<notin> set (tl m)" and ne: "m \<noteq> []"
        by (rule dependsOnMatchAt_Some)
      from s ne have cs: "cs = tl m @ rest" by (cases m) auto
      have len: "length (tl m) = length m - 1" by simp
      have dr: "drop (length m - 1) cs = rest" unfolding cs len[symmetric] by simp
      have "includes_str (tl m @ rest) (CHR ''['' # (''dependsOn:'' @ g @ '']''))"
        using inc unfolding cs by simp
      then have "includes_str rest (CHR ''['' # (''dependsOn:'' @ g @ '']''))"
        unfolding includes_str_skip[OF nb] .
      then have "includes_str (drop (length m - 1) cs) ?tag" unfolding dr by simp
      with "2.IH"(2)[OF Some] have "?tag \<in> set (dependsOnMatch (drop (length m - 1) cs))" .
      with Some show ?thesis by simp
    qed
  qed
qed

lemma slice_tag: "slice_11_m1 (''[dependsOn:'' @ g @ '']'') = g"
  by (simp add: slice_11_m1_def)

lemma parseLine_dependsOn:
  assumes "isWord g" "taskMatch line = Some (m0, m1)"
    "includes_str (trim m1) (''[dependsOn:'' @ g @ '']'')"
  shows "\<exists>p. parseLine line = Some p \<and> g \<in> set (dependsOn p)"
proof -
  have "''[dependsOn:'' @ g @ '']'' \<in> set (dependsOnMatch (trim m1))"
    using assms(1,3) by (rule dependsOnMatch_includes)
  then have "slice_11_m1 (''[dependsOn:'' @ g @ '']'') \<in> slice_11_m1 ` set (dependsOnMatch (trim m1))"
    by (rule imageI)
  then have "g \<in> set (map slice_11_m1 (dependsOnMatch (trim m1)))" unfolding slice_tag set_map .
  then show ?thesis using assms(2) by (simp add: parseLine_def Let_def)
qed

lemma graphNodes_ids: "map node_id (graphNodes ts) = map id_t ts"
  by (simp add: graphNodes_def comp_def)

lemma graphEdges_mem:
  "task \<in> set ts \<Longrightarrow> dep \<in> set (dependencies task) \<Longrightarrow>
   \<lparr>from_id = dep, to_id = id_t task\<rparr> \<in> set (graphEdges ts)"
  by (auto simp: graphEdges_def)

lemma getTasksFromNotes_distinct: "distinct (map id_t (getTasksFromNotes v))"
  using keepNew_ids[of "{}" "candidates 1 (allLines v)"]
  by (simp add: getTasksFromNotes_allLines tasks_foldl_lineCallback)

section \<open>The two mutations on documents and on the vault\<close>

lemma toggleContent_lines:
  "toggleContent t c = concat (map (\<lambda>l. toggleLine t l @ [CHR 0x0A]) (split_str c))"
  by (simp add: toggleContent_def foldl_lines)

lemma dependencyContent_lines:
  "dependencyContent f t c = concat (map (\<lambda>l. dependencyLine f t l @ [CHR 0x0A]) (split_str c))"
  by (simp add: dependencyContent_def foldl_lines)

lemma toggle_trimmed:
  assumes "trim c = c"
  shows "trim (toggleContent t c) = joinLines (map (toggleLine t) (split_str c))"
    and "split_str (trim (toggleContent t c)) = map (toggleLine t) (split_str c)"
    and "trim (trim (toggleContent t c)) = trim (toggleContent t c)"
proof -
  note r = rewrite_trimmed[OF gentle_toggleLine assms, of t]
  show 1: "trim (toggleContent t c) = joinLines (map (toggleLine t) (split_str c))"
    unfolding toggleContent_def by (rule r(1))
  show "split_str (trim (toggleContent t c)) = map (toggleLine t) (split_str c)"
    unfolding 1 by (rule r(2))
  show "trim (trim (toggleContent t c)) = trim (toggleContent t c)"
    unfolding 1 by (rule r(3))
qed

lemma dependency_trimmed:
  assumes "CHR ''$'' \<notin> set f" "CHR 0x0A \<notin> set f" "trim c = c"
  shows "trim (dependencyContent f t c) = joinLines (map (dependencyLine f t) (split_str c))"
    and "split_str (trim (dependencyContent f t c)) = map (dependencyLine f t) (split_str c)"
    and "trim (trim (dependencyContent f t c)) = trim (dependencyContent f t c)"
proof -
  note r = rewrite_trimmed[OF gentle_dependencyLine[OF assms(1,2)] assms(3), of t]
  show 1: "trim (dependencyContent f t c) = joinLines (map (dependencyLine f t) (split_str c))"
    unfolding dependencyContent_def by (rule r(1))
  show "split_str (trim (dependencyContent f t c)) = map (dependencyLine f t) (split_str c)"
    unfolding 1 by (rule r(2))
  show "trim (trim (dependencyContent f t c)) = trim (dependencyContent f t c)"
    unfolding 1 by (rule r(3))
qed

lemma toggle_twice_content:
  assumes "trim c = c"
  shows "trim (toggleContent t (trim (toggleContent t c))) = c"
proof -
  have "trim (toggleContent t (trim (toggleContent t c)))
          = joinLines (map (toggleLine t) (split_str (trim (toggleContent t c))))"
    by (rule toggle_trimmed(1)[OF toggle_trimmed(3)[OF assms]])
  also have "\<dots> = joinLines (map (toggleLine t) (map (toggleLine t) (split_str c)))"
    unfolding toggle_trimmed(2)[OF assms] ..
  also have "\<dots> = joinLines (split_str c)"
    by (simp add: comp_def toggleLine_involution)
  also have "\<dots> = c" by simp
  finally show ?thesis .
qed

lemma dependency_twice_content:
  assumes "CHR ''$'' \<notin> set f" "CHR 0x0A \<notin> set f" "trim c = c"
  shows "trim (dependencyContent f t (trim (dependencyContent f t c)))
           = trim (dependencyContent f t c)"
proof -
  note d = dependency_trimmed[OF assms(1,2)]
  have "trim (dependencyContent f t (trim (dependencyContent f t c)))
          = joinLines (map (dependencyLine f t) (split_str (trim (dependencyContent f t c))))"
    by (rule d(1)[OF d(3)[OF assms(3)]])
  also have "\<dots> = joinLines (map (dependencyLine f t) (map (dependencyLine f t) (split_str c)))"
    unfolding d(2)[OF assms(3)] ..
  also have "\<dots> = joinLines (map (dependencyLine f t) (split_str c))"
    by (simp add: comp_def dependencyLine_idem[OF assms(1)])
  also have "\<dots> = trim (dependencyContent f t c)"
    by (rule d(1)[OF assms(3), symmetric])
  finally show ?thesis .
qed

text \<open>The loop over the files, for any rewriting of a document.\<close>

lemma rewrite_loop_twice:
  assumes d: "distinct (files v)"
    and fx: "\<And>file. file \<in> set (files v) \<Longrightarrow> rw (rw (contents v file)) = r2 (contents v file)"
  defines "loop \<equiv> \<lambda>v. foldl (\<lambda>v file. modify v file (rw (read v file))) v (files v)"
  shows "contents (loop (loop v)) =
           (\<lambda>file. if file \<in> set (files v) then r2 (contents v file) else contents v file)"
proof -
  let ?v1 = "loop v"
  have f1: "files ?v1 = files v" and c1: "contents ?v1 =
      (\<lambda>file. if file \<in> set (files v) then rw (contents v file) else contents v file)"
    unfolding loop_def using rewrite_loop[OF d, of rw v] by simp_all
  have d1: "distinct (files ?v1)" using d f1 by simp
  have "contents (loop ?v1) =
      (\<lambda>file. if file \<in> set (files ?v1) then rw (contents ?v1 file) else contents ?v1 file)"
    using rewrite_loop[OF d1, of rw ?v1] unfolding loop_def by simp
  then show ?thesis unfolding f1 c1 using fx by (auto simp: fun_eq_iff)
qed

lemma allLines_rewritten:
  assumes d: "distinct (files v)"
    and sp: "\<And>file. file \<in> set (files v) \<Longrightarrow>
               split_str (rw (contents v file)) = map g (split_str (contents v file))"
  shows "allLines (foldl (\<lambda>v file. modify v file (rw (read v file))) v (files v))
           = map g (allLines v)"
proof -
  let ?v1 = "foldl (\<lambda>v file. modify v file (rw (read v file))) v (files v)"
  have f1: "files ?v1 = files v" and c1: "contents ?v1 =
      (\<lambda>file. if file \<in> set (files v) then rw (contents v file) else contents v file)"
    using rewrite_loop[OF d, of rw v] by simp_all
  have c1': "read ?v1 fl = rw (contents v fl)" if "fl \<in> set (files v)" for fl
    using that by (simp only: read_def[of ?v1] c1 if_True)
  have e: "map (\<lambda>file. split_str (read ?v1 file)) (files v)
          = map (\<lambda>file. map g (split_str (read v file))) (files v)"
    by (rule map_cong[OF refl]) (simp only: c1' sp read_def[of v])
  have "allLines ?v1 = concat (map (\<lambda>file. split_str (read ?v1 file)) (files v))"
    unfolding allLines_def f1 ..
  also have "\<dots> = concat (map (\<lambda>file. map g (split_str (read v file))) (files v))"
    unfolding e ..
  also have "\<dots> = map g (allLines v)"
    unfolding allLines_def by (simp add: map_concat comp_def)
  finally show ?thesis .
qed

lemma candidates_same_fields:
  assumes "\<And>l. parseLine (g l) = map_option (\<lambda>p. p\<lparr>checked := fl l\<rparr>) (parseLine l)"
  shows "map (\<lambda>task. (id_t task, name task, dependencies task)) (candidates n (map g ls))
           = map (\<lambda>task. (id_t task, name task, dependencies task)) (candidates n ls)"
proof (induction ls arbitrary: n)
  case Nil
  show ?case by simp
next
  case (Cons l ls)
  show ?case
  proof (cases "parseLine l")
    case None
    then have "parseLine (g l) = None" by (simp add: assms)
    with None Cons.IH[of n] show ?thesis by simp
  next
    case (Some p)
    then have pg: "parseLine (g l) = Some (p\<lparr>checked := fl l\<rparr>)" by (simp add: assms)
    show ?thesis
    proof (cases "idTag p")
      case None
      with Some pg Cons.IH[of "n + 1"] show ?thesis by (simp add: taskOf_def)
    next
      case (Some w)
      with \<open>parseLine l = Some p\<close> pg Cons.IH[of n] show ?thesis by (simp add: taskOf_def)
    qed
  qed
qed

lemma keepNew_same_fields:
  "map (\<lambda>task. (id_t task, name task, dependencies task)) cs'
     = map (\<lambda>task. (id_t task, name task, dependencies task)) cs \<Longrightarrow>
   map (\<lambda>task. (id_t task, name task, dependencies task)) (keepNew seen cs')
     = map (\<lambda>task. (id_t task, name task, dependencies task)) (keepNew seen cs)"
proof (induction cs arbitrary: cs' seen)
  case Nil
  then show ?case by simp
next
  case (Cons c cs)
  then obtain c' cs'' where cs': "cs' = c' # cs''" by (cases cs') auto
  with Cons.prems have hd: "id_t c' = id_t c" "name c' = name c" "dependencies c' = dependencies c"
    and tl: "map (\<lambda>task. (id_t task, name task, dependencies task)) cs''
               = map (\<lambda>task. (id_t task, name task, dependencies task)) cs" by auto
  show ?case
    unfolding cs' using hd Cons.IH[OF tl, of seen] Cons.IH[OF tl, of "insert (id_t c) seen"]
    by simp
qed

lemma getTasksFromNotes_same_fields:
  assumes "\<And>l. parseLine (g l) = map_option (\<lambda>p. p\<lparr>checked := fl l\<rparr>) (parseLine l)"
    and "allLines v' = map g (allLines v)"
  shows "map (\<lambda>task. (id_t task, name task, dependencies task)) (getTasksFromNotes v')
           = map (\<lambda>task. (id_t task, name task, dependencies task)) (getTasksFromNotes v)"
proof -
  have e: "getTasksFromNotes u = keepNew {} (candidates 1 (allLines u))" for u
    by (simp add: getTasksFromNotes_allLines tasks_foldl_lineCallback)
  show ?thesis
    unfolding e assms(2)
    by (rule keepNew_same_fields) (rule candidates_same_fields[OF assms(1)])
qed

lemma toggleLine_unchanged:
  "\<not> (includes_str l (''[id:'' @ t @ '']'') \<and> (startsWith l ''- [ ]'' \<or> startsWith l ''- [x]''))
     \<Longrightarrow> toggleLine t l = l"
  by (auto simp: toggleLine_def)

lemma toggleLine_check:
  assumes "includes_str l (''[id:'' @ t @ '']'')" "startsWith l ''- [ ]''"
  shows "toggleLine t l = ''- [x]'' @ drop 5 l" "includes_str (toggleLine t l) ''- [x]''"
proof -
  show 1: "toggleLine t l = ''- [x]'' @ drop 5 l"
    using assms by (simp add: toggleLine_def startsWith_def replace_str_prefix eval_nat_numeral)
  have "''- [x]'' @ drop 5 l = [] @ ''- [x]'' @ drop 5 l" by simp
  then show "includes_str (toggleLine t l) ''- [x]''"
    unfolding 1 includes_str_iff by blast
qed

lemma toggleLine_uncheck:
  assumes "includes_str l (''[id:'' @ t @ '']'')" "startsWith l ''- [x]''"
  shows "toggleLine t l = ''- [ ]'' @ drop 5 l"
proof -
  from assms(2) have "\<not> startsWith l ''- [ ]''" by (auto simp: startsWith_def prefix_def)
  with assms show ?thesis
    by (simp add: toggleLine_def startsWith_def replace_str_prefix eval_nat_numeral)
qed

section \<open>The identity pattern and the spliced tag\<close>



















lemma parseLine_of_match:
  "taskMatch line = Some (m0, m1) \<Longrightarrow>
   \<exists>p. parseLine line = Some p \<and> idTag p = idMatch (trim m1)"
  by (simp add: parseLine_def Let_def)

section \<open>White space at the ends of a document\<close>

lemma trim_trimEnd: "trim s = trimEnd (dropWhile isWhiteSpace s)"
  by (simp add: trim_def trimEnd_def)

lemma isBlank_iff: "isBlank l \<longleftrightarrow> (\<forall>c\<in>set l. isWhiteSpace c)"
  by (simp add: isBlank_def list_all_iff)

lemma trimStart_blank: "isBlank a \<Longrightarrow> dropWhile isWhiteSpace (a @ b) = dropWhile isWhiteSpace b"
  unfolding isBlank_iff by (intro dropWhile_append2) simp

lemma trimStart_visible:
  "\<not> isBlank a \<Longrightarrow> dropWhile isWhiteSpace (a @ b) = dropWhile isWhiteSpace a @ b"
proof -
  assume "\<not> isBlank a"
  then obtain c where "c \<in> set a" "\<not> isWhiteSpace c" unfolding isBlank_iff by blast
  then show ?thesis by (rule dropWhile_append1)
qed

lemma trimEnd_blank: "isBlank b \<Longrightarrow> trimEnd (a @ b) = trimEnd a"
proof -
  assume "isBlank b"
  then have "\<And>x. x \<in> set (rev b) \<Longrightarrow> isWhiteSpace x" unfolding isBlank_iff by simp
  then have "dropWhile isWhiteSpace (rev b @ rev a) = dropWhile isWhiteSpace (rev a)"
    by (rule dropWhile_append2)
  then show ?thesis unfolding trimEnd_def by simp
qed

lemma trimEnd_visible: "\<not> isBlank b \<Longrightarrow> trimEnd (a @ b) = a @ trimEnd b"
proof -
  assume "\<not> isBlank b"
  then obtain c where "c \<in> set (rev b)" "\<not> isWhiteSpace c" unfolding isBlank_iff by auto
  then have "dropWhile isWhiteSpace (rev b @ rev a) = dropWhile isWhiteSpace (rev b) @ rev a"
    by (rule dropWhile_append1)
  then show ?thesis unfolding trimEnd_def by simp
qed

lemma trimStart_Nil_iff: "dropWhile isWhiteSpace s = [] \<longleftrightarrow> isBlank s"
  by (simp add: isBlank_iff dropWhile_eq_Nil_conv)

lemma trimEnd_Nil_iff: "trimEnd s = [] \<longleftrightarrow> isBlank s"
  by (simp add: isBlank_iff trimEnd_def dropWhile_eq_Nil_conv)

lemma joinLines_snoc: "xs \<noteq> [] \<Longrightarrow> joinLines (xs @ [l]) = joinLines xs @ CHR 0x0A # l"
  by (induction xs rule: joinLines.induct) auto

lemma trimStart_joinLines:
  "ls \<noteq> [] \<Longrightarrow> dropWhile isWhiteSpace (joinLines ls) = joinLines (trimStartLines ls)"
proof (induction ls rule: joinLines.induct)
  case 1
  then show ?case by simp
next
  case (2 l)
  show ?case
  proof (cases "isBlank l")
    case True
    then have e: "dropWhile isWhiteSpace l = []" by (simp only: trimStart_Nil_iff)
    have "trimStartLines [l] = [[]]" using True by (simp add: trimStartLines_def)
    then show ?thesis unfolding joinLines.simps e by simp
  next
    case False
    then show ?thesis by (simp add: trimStartLines_def)
  qed
next
  case (3 l l' ls)
  let ?J = "joinLines (l' # ls)"
  have IH: "dropWhile isWhiteSpace ?J = joinLines (trimStartLines (l' # ls))"
    using 3 by simp
  have j: "joinLines (l # l' # ls) = l @ CHR 0x0A # ?J" by simp
  show ?case
  proof (cases "isBlank l")
    case True
    have "dropWhile isWhiteSpace (l @ CHR 0x0A # ?J) = dropWhile isWhiteSpace (CHR 0x0A # ?J)"
      using True by (rule trimStart_blank)
    also have "\<dots> = dropWhile isWhiteSpace ?J" by simp
    also have "\<dots> = joinLines (trimStartLines (l' # ls))" by (rule IH)
    also have "trimStartLines (l' # ls) = trimStartLines (l # l' # ls)"
      using True by (simp add: trimStartLines_def)
    finally show ?thesis unfolding j .
  next
    case False
    have "dropWhile isWhiteSpace (l @ CHR 0x0A # ?J) = dropWhile isWhiteSpace l @ CHR 0x0A # ?J"
      using False by (rule trimStart_visible)
    moreover have "trimStartLines (l # l' # ls) = dropWhile isWhiteSpace l # l' # ls"
      using False by (simp add: trimStartLines_def)
    ultimately show ?thesis unfolding j by simp
  qed
qed

lemma trimEnd_joinLines:
  "ls \<noteq> [] \<Longrightarrow> trimEnd (joinLines ls) = joinLines (trimEndLines ls)"
proof (induction ls rule: rev_nonempty_induct)
  case (single l)
  show ?case
  proof (cases "isBlank l")
    case True
    then have "trimEnd l = []" by (simp add: trimEnd_Nil_iff)
    with True show ?thesis by (simp add: trimEndLines_def)
  next
    case False
    then show ?thesis by (simp add: trimEndLines_def)
  qed
next
  case (snoc l xs)
  have j: "joinLines (xs @ [l]) = joinLines xs @ CHR 0x0A # l"
    using snoc(1) by (rule joinLines_snoc)
  show ?case
  proof (cases "isBlank l")
    case True
    then have "isBlank (CHR 0x0A # l)" by (simp add: isBlank_def)
    then have "trimEnd (joinLines xs @ CHR 0x0A # l) = trimEnd (joinLines xs)"
      by (rule trimEnd_blank)
    also have "\<dots> = joinLines (trimEndLines xs)" by (rule snoc(2))
    also have "trimEndLines xs = trimEndLines (xs @ [l])"
      using True by (simp add: trimEndLines_def)
    finally show ?thesis unfolding j .
  next
    case False
    then have nb: "\<not> isBlank (CHR 0x0A # l)" by (simp add: isBlank_def)
    have "trimEnd ([CHR 0x0A] @ l) = [CHR 0x0A] @ trimEnd l" using False by (rule trimEnd_visible)
    then have t: "trimEnd (CHR 0x0A # l) = CHR 0x0A # trimEnd l" by simp
    have "trimEnd (joinLines xs @ CHR 0x0A # l) = joinLines xs @ trimEnd (CHR 0x0A # l)"
      using nb by (rule trimEnd_visible)
    then have 1: "trimEnd (joinLines (xs @ [l])) = joinLines xs @ CHR 0x0A # trimEnd l"
      unfolding j t .
    have "trimEndLines (xs @ [l]) = xs @ [trimEnd l]" using False by (simp add: trimEndLines_def)
    then have "joinLines (trimEndLines (xs @ [l])) = joinLines xs @ CHR 0x0A # trimEnd l"
      using joinLines_snoc[OF snoc(1), of "trimEnd l"] by simp
    with 1 show ?thesis by simp
  qed
qed

lemma lastVisibleLine_lines: "lastVisibleLine c = lastVisible (split_str c)"
  by (simp add: lastVisibleLine_def lastVisible_def)

lemma trimEnd_subset: "set (trimEnd l) \<subseteq> set l"
  unfolding trimEnd_def using set_dropWhileD[of _ isWhiteSpace "rev l"] by auto

lemma trimStartLines_not_Nil [simp]: "trimStartLines ls \<noteq> []"
  by (simp add: trimStartLines_def split: list.splits)

lemma trimEndLines_not_Nil [simp]: "trimEndLines ls \<noteq> []"
  by (simp add: trimEndLines_def split: list.splits)

lemma trimStartLines_no_newline:
  assumes "\<forall>l\<in>set ls. CHR 0x0A \<notin> set l"
  shows "\<forall>l\<in>set (trimStartLines ls). CHR 0x0A \<notin> set l"
proof (cases "dropWhile isBlank ls")
  case Nil
  show ?thesis unfolding trimStartLines_def Nil by simp
next
  case (Cons l r)
  have "set (l # r) \<subseteq> set ls" unfolding Cons[symmetric] using set_dropWhileD by fast
  with assms have a: "\<forall>m\<in>set (l # r). CHR 0x0A \<notin> set m" by blast
  have "set (dropWhile isWhiteSpace l) \<subseteq> set l" using set_dropWhileD by fast
  with a show ?thesis unfolding trimStartLines_def Cons by auto
qed

lemma trimEndLines_no_newline:
  assumes "\<forall>l\<in>set ls. CHR 0x0A \<notin> set l"
  shows "\<forall>l\<in>set (trimEndLines ls). CHR 0x0A \<notin> set l"
proof (cases "dropWhile isBlank (rev ls)")
  case Nil
  show ?thesis unfolding trimEndLines_def Nil by simp
next
  case (Cons l r)
  have "set (l # r) \<subseteq> set (rev ls)" unfolding Cons[symmetric] using set_dropWhileD by fast
  with assms have a: "\<forall>m\<in>set (l # r). CHR 0x0A \<notin> set m" by auto
  with trimEnd_subset[of l] show ?thesis unfolding trimEndLines_def Cons by auto
qed

lemma split_trim_joinLines:
  assumes "ls \<noteq> []" "\<forall>l\<in>set ls. CHR 0x0A \<notin> set l"
  shows "split_str (trim (joinLines ls)) = trimEndLines (trimStartLines ls)"
proof -
  have "trim (joinLines ls) = trimEnd (joinLines (trimStartLines ls))"
    unfolding trim_trimEnd trimStart_joinLines[OF assms(1)] ..
  also have "\<dots> = joinLines (trimEndLines (trimStartLines ls))"
    by (rule trimEnd_joinLines) simp
  finally have "trim (joinLines ls) = joinLines (trimEndLines (trimStartLines ls))" .
  moreover have "split_str (joinLines (trimEndLines (trimStartLines ls)))
                   = trimEndLines (trimStartLines ls)"
    by (rule split_str_joinLines)
       (simp_all add: trimEndLines_no_newline[OF trimStartLines_no_newline[OF assms(2)]])
  ultimately show ?thesis by simp
qed

lemma trim_idem: "trim (trim s) = trim s"
proof (cases "trim s = []")
  case True
  show ?thesis unfolding True by (simp add: trim_def)
next
  case False
  let ?a = "dropWhile isWhiteSpace s"
  let ?b = "dropWhile isWhiteSpace (rev ?a)"
  have t: "trim s = rev ?b" by (simp add: trim_def)
  from False have b: "?b \<noteq> []" unfolding t by simp
  have a: "?a \<noteq> []"
  proof
    assume e: "?a = []"
    have "?b = []" unfolding e by simp
    with b show False by blast
  qed
  have "\<not> isWhiteSpace (hd ?b)" using b by (rule hd_dropWhile)
  then have l: "\<not> isWhiteSpace (last (trim s))" unfolding t using b by (simp add: last_rev)
  have "rev ?a = takeWhile isWhiteSpace (rev ?a) @ ?b" by simp
  then have "last (rev ?a) = last ?b" using b by (metis last_appendR)
  then have "hd ?a = last ?b" using a by (simp add: last_rev)
  moreover have "\<not> isWhiteSpace (hd ?a)" using a by (rule hd_dropWhile)
  ultimately have h: "\<not> isWhiteSpace (hd (trim s))" unfolding t using b by (simp add: hd_rev)
  from h l show ?thesis by (intro trim_id) simp
qed

lemma includes_str_trimStart:
  "includes_str (dropWhile isWhiteSpace s) (CHR ''['' # q) = includes_str s (CHR ''['' # q)"
proof -
  have "CHR ''['' \<notin> set (takeWhile isWhiteSpace s)"
  proof
    assume "CHR ''['' \<in> set (takeWhile isWhiteSpace s)"
    then have "isWhiteSpace (CHR ''['')" by (rule set_takeWhileD[THEN conjunct2])
    then show False by (simp add: isWhiteSpace_def)
  qed
  then have "includes_str (takeWhile isWhiteSpace s @ dropWhile isWhiteSpace s) (CHR ''['' # q)
               = includes_str (dropWhile isWhiteSpace s) (CHR ''['' # q)"
    by (rule includes_str_skip)
  then show ?thesis by simp
qed

lemma includes_str_rev: "includes_str (rev s) (rev p) = includes_str s p"
proof -
  have "(\<exists>a b. rev s = a @ rev p @ b) \<longleftrightarrow> (\<exists>a b. s = a @ p @ b)"
  proof
    assume "\<exists>a b. rev s = a @ rev p @ b"
    then obtain a b where "rev s = a @ rev p @ b" by blast
    then have "rev (rev s) = rev (a @ rev p @ b)" by (rule arg_cong)
    then have "s = rev b @ p @ rev a" by simp
    then show "\<exists>a b. s = a @ p @ b" by blast
  next
    assume "\<exists>a b. s = a @ p @ b"
    then obtain a b where "s = a @ p @ b" by blast
    then have "rev s = rev b @ rev p @ rev a" by simp
    then show "\<exists>a b. rev s = a @ rev p @ b" by blast
  qed
  then show ?thesis unfolding includes_str_iff .
qed

lemma includes_str_trimEnd:
  "includes_str (trimEnd s) (q @ '']'') = includes_str s (q @ '']'')"
proof -
  have r: "rev (q @ '']'') = CHR '']'' # rev q" by simp
  have "CHR '']'' \<notin> set (takeWhile isWhiteSpace (rev s))"
  proof
    assume "CHR '']'' \<in> set (takeWhile isWhiteSpace (rev s))"
    then have "isWhiteSpace (CHR '']'')" by (rule set_takeWhileD[THEN conjunct2])
    then show False by (simp add: isWhiteSpace_def)
  qed
  then have "includes_str (takeWhile isWhiteSpace (rev s) @ dropWhile isWhiteSpace (rev s)) (CHR '']'' # rev q)
               = includes_str (dropWhile isWhiteSpace (rev s)) (CHR '']'' # rev q)"
    by (rule includes_str_skip)
  then have "includes_str (rev s) (rev (q @ '']'')) = includes_str (rev (trimEnd s)) (rev (q @ '']''))"
    unfolding r trimEnd_def by simp
  then show ?thesis unfolding includes_str_rev by simp
qed

lemma trimEnd_fixed: "s \<noteq> [] \<Longrightarrow> \<not> isWhiteSpace (last s) \<Longrightarrow> trimEnd s = s"
  unfolding trimEnd_def by (cases s rule: rev_cases) auto

lemma trimEnd_prefix: "\<exists>b. s = trimEnd s @ b \<and> isBlank b"
proof -
  have "rev s = takeWhile isWhiteSpace (rev s) @ dropWhile isWhiteSpace (rev s)" by simp
  then have "rev (rev s) = rev (takeWhile isWhiteSpace (rev s) @ dropWhile isWhiteSpace (rev s))"
    by (rule arg_cong)
  then have "s = trimEnd s @ rev (takeWhile isWhiteSpace (rev s))"
    unfolding trimEnd_def by (simp only: rev_rev_ident rev_append)
  moreover have "isBlank (rev (takeWhile isWhiteSpace (rev s)))"
    unfolding isBlank_iff by (auto dest: set_takeWhileD)
  ultimately show ?thesis by blast
qed

lemma trimEnd_trimStart: "trimEnd (dropWhile isWhiteSpace l) = dropWhile isWhiteSpace (trimEnd l)"
proof (cases "isBlank l")
  case True
  then have e: "dropWhile isWhiteSpace l = []" "trimEnd l = []"
    by (simp_all only: trimStart_Nil_iff trimEnd_Nil_iff)
  show ?thesis unfolding e by (simp add: trimEnd_def)
next
  case False
  let ?a = "takeWhile isWhiteSpace l"
  let ?d = "dropWhile isWhiteSpace l"
  have a: "isBlank ?a" unfolding isBlank_iff by (auto dest: set_takeWhileD)
  have l: "l = ?a @ ?d" by simp
  from False have dne: "?d \<noteq> []" by (simp only: trimStart_Nil_iff not_False_eq_True)
  then have hd: "\<not> isWhiteSpace (hd ?d)" by (rule hd_dropWhile)
  have dnb: "\<not> isBlank ?d"
  proof
    assume "isBlank ?d"
    with dne have "isWhiteSpace (hd ?d)" unfolding isBlank_iff by simp
    with hd show False ..
  qed
  obtain b where d: "?d = trimEnd ?d @ b" and "isBlank b" using trimEnd_prefix by blast
  from dnb have tne: "trimEnd ?d \<noteq> []" by (simp only: trimEnd_Nil_iff not_False_eq_True)
  from d tne have "hd (trimEnd ?d) = hd ?d" by (metis hd_append2)
  with hd tne have fixd: "dropWhile isWhiteSpace (trimEnd ?d) = trimEnd ?d"
    by (cases "trimEnd ?d") auto
  have "trimEnd l = trimEnd (?a @ ?d)" by simp
  also have "\<dots> = ?a @ trimEnd ?d" using dnb by (rule trimEnd_visible)
  finally have "dropWhile isWhiteSpace (trimEnd l) = dropWhile isWhiteSpace (?a @ trimEnd ?d)"
    by simp
  also have "\<dots> = dropWhile isWhiteSpace (trimEnd ?d)" using a by (rule trimStart_blank)
  also have "\<dots> = trimEnd ?d" by (rule fixd)
  finally show ?thesis by simp
qed

section \<open>The second dependency update\<close>

lemma dependencyLine_spliceable:
  assumes "CHR ''$'' \<notin> set f"
  shows "dependencyLine f t s =
           (if spliceable f t s then butlast s @ '' [dependsOn:'' @ f @ '']]'' else s)"
  unfolding dependencyLine_eq[OF assms] spliceable_def ..

lemma dependencyLine_fixed_iff:
  assumes "CHR ''$'' \<notin> set f"
  shows "dependencyLine f t s = s \<longleftrightarrow> \<not> spliceable f t s"
proof (cases "spliceable f t s")
  case True
  then have "dependencyLine f t s = butlast s @ '' [dependsOn:'' @ f @ '']]''"
    unfolding dependencyLine_spliceable[OF assms] by simp
  then have 1: "length (dependencyLine f t s) = length (butlast s) + (14 + length f)" by simp
  from True have "s \<noteq> []" by (simp add: spliceable_def)
  then have 2: "length s = length (butlast s) + 1" by simp
  have "dependencyLine f t s \<noteq> s"
  proof
    assume "dependencyLine f t s = s"
    then have "length (dependencyLine f t s) = length s" by (rule arg_cong)
    then show False unfolding 1 2 by arith
  qed
  with True show ?thesis by blast
next
  case False
  then show ?thesis unfolding dependencyLine_spliceable[OF assms] by simp
qed

lemma not_blank_with_bracket: "CHR ''['' \<in> set s \<Longrightarrow> \<not> isBlank s"
proof
  assume "CHR ''['' \<in> set s" "isBlank s"
  then have "isWhiteSpace (CHR ''['')" unfolding isBlank_iff by blast
  then show False by (simp add: isWhiteSpace_def)
qed

lemma spliceable_not_blank: "spliceable f t s \<Longrightarrow> \<not> isBlank s"
proof -
  assume "spliceable f t s"
  then have "includes_str s (''[id:'' @ t @ '']'')" by (simp add: spliceable_def)
  then have "set (''[id:'' @ t @ '']'') \<subseteq> set s" by (rule includes_str_set)
  then have "CHR ''['' \<in> set s" by auto
  then show ?thesis by (rule not_blank_with_bracket)
qed

lemma spliceable_trimStart: "spliceable f t (dropWhile isWhiteSpace s) = spliceable f t s"
proof (cases "isBlank s")
  case True
  then have e: "dropWhile isWhiteSpace s = []" by (simp only: trimStart_Nil_iff)
  have "\<not> spliceable f t s" using True spliceable_not_blank by blast
  moreover have "\<not> spliceable f t []" by (simp add: spliceable_def)
  ultimately show ?thesis unfolding e by simp
next
  case False
  then have ne: "dropWhile isWhiteSpace s \<noteq> []" by (simp only: trimStart_Nil_iff not_False_eq_True)
  have "s = takeWhile isWhiteSpace s @ dropWhile isWhiteSpace s" by simp
  then have "last s = last (dropWhile isWhiteSpace s)" using ne by (metis last_appendR)
  moreover from ne have "s \<noteq> []" by auto
  moreover have "includes_str (dropWhile isWhiteSpace s) (''[id:'' @ t @ '']'')
                   = includes_str s (''[id:'' @ t @ '']'')"
    using includes_str_trimStart[of s "''id:'' @ t @ '']''"] by simp
  moreover have "includes_str (dropWhile isWhiteSpace s) (''[dependsOn:'' @ f @ '']'')
                   = includes_str s (''[dependsOn:'' @ f @ '']'')"
    using includes_str_trimStart[of s "''dependsOn:'' @ f @ '']''"] by simp
  ultimately show ?thesis using ne unfolding spliceable_def by simp
qed

lemma spliceable_ends: "spliceable f t s \<Longrightarrow> trimEnd s = s"
proof -
  assume "spliceable f t s"
  then have "s \<noteq> []" "last s = CHR '']''" by (simp_all add: spliceable_def)
  moreover have "\<not> isWhiteSpace (CHR '']'')" by (simp add: isWhiteSpace_def)
  ultimately show ?thesis by (intro trimEnd_fixed) simp_all
qed

lemma isBlank_dependencyLine:
  assumes "CHR ''$'' \<notin> set f"
  shows "isBlank (dependencyLine f t s) = isBlank s"
proof (cases "spliceable f t s")
  case False
  then show ?thesis unfolding dependencyLine_spliceable[OF assms] by simp
next
  case True
  then have 1: "\<not> isBlank s" by (rule spliceable_not_blank)
  have "CHR ''['' \<in> set (butlast s @ '' [dependsOn:'' @ f @ '']]'')" by simp
  then have "\<not> isBlank (butlast s @ '' [dependsOn:'' @ f @ '']]'')" by (rule not_blank_with_bracket)
  with True 1 show ?thesis unfolding dependencyLine_spliceable[OF assms] by simp
qed

lemma lastVisible_map:
  assumes "\<And>s. isBlank (g s) = isBlank s" "g [] = []"
  shows "lastVisible (map g ls) = g (lastVisible ls)"
proof -
  have "isBlank \<circ> g = isBlank" using assms(1) by (simp add: fun_eq_iff)
  then have e: "dropWhile isBlank (rev (map g ls)) = map g (dropWhile isBlank (rev ls))"
    by (simp add: rev_map dropWhile_map)
  show ?thesis
  proof (cases "dropWhile isBlank (rev ls)")
    case Nil
    show ?thesis unfolding lastVisible_def e Nil using assms(2) by simp
  next
    case (Cons a b)
    show ?thesis unfolding lastVisible_def e Cons by simp
  qed
qed

lemma lastVisible_snoc:
  "lastVisible (xs @ [l]) = (if isBlank l then lastVisible xs else l)"
  by (simp add: lastVisible_def)

lemma lastVisible_blank: "\<forall>l\<in>set ls. isBlank l \<Longrightarrow> lastVisible ls = []"
proof -
  assume "\<forall>l\<in>set ls. isBlank l"
  then have "dropWhile isBlank (rev ls) = []" by simp
  then show ?thesis unfolding lastVisible_def by (simp only: list.case)
qed

lemma lastVisible_Cons:
  "lastVisible (l # ls) = (if \<forall>m\<in>set ls. isBlank m then (if isBlank l then [] else l)
                           else lastVisible ls)"
proof (cases "\<forall>m\<in>set ls. isBlank m")
  case True
  then have "\<And>x. x \<in> set (rev ls) \<Longrightarrow> isBlank x" by simp
  then have e: "dropWhile isBlank (rev ls @ [l]) = dropWhile isBlank [l]"
    by (rule dropWhile_append2)
  have "lastVisible (l # ls) = (if isBlank l then [] else l)"
    unfolding lastVisible_def rev.simps e by simp
  then show ?thesis unfolding if_P[OF True] .
next
  case False
  then obtain m where "m \<in> set (rev ls)" "\<not> isBlank m" by auto
  then have e: "dropWhile isBlank (rev ls @ [l]) = dropWhile isBlank (rev ls) @ [l]"
    by (rule dropWhile_append1)
  from False have "dropWhile isBlank (rev ls) \<noteq> []" by (simp add: dropWhile_eq_Nil_conv)
  then obtain a b where ab: "dropWhile isBlank (rev ls) = a # b"
    by (cases "dropWhile isBlank (rev ls)") auto
  have "lastVisible (l # ls) = a" unfolding lastVisible_def rev.simps e ab by simp
  moreover have "lastVisible ls = a" unfolding lastVisible_def ab by simp
  ultimately show ?thesis unfolding if_not_P[OF False] by simp
qed

lemma lastVisible_dropWhile: "lastVisible (dropWhile isBlank ls) = lastVisible ls"
proof (induction ls)
  case Nil
  show ?case by simp
next
  case (Cons l ls)
  show ?case
  proof (cases "isBlank l")
    case False
    then show ?thesis by simp
  next
    case True
    have "lastVisible (l # ls) = lastVisible ls"
    proof (cases "\<forall>m\<in>set ls. isBlank m")
      case True
      then have b: "lastVisible ls = []" by (rule lastVisible_blank)
      show ?thesis unfolding lastVisible_Cons if_P[OF True] if_P[OF \<open>isBlank l\<close>] b ..
    next
      case False
      show ?thesis unfolding lastVisible_Cons if_not_P[OF False] ..
    qed
    with True Cons show ?thesis by simp
  qed
qed

lemma lastVisible_trimStartLines:
  "lastVisible (trimStartLines gs) = lastVisible gs
     \<or> lastVisible (trimStartLines gs) = dropWhile isWhiteSpace (lastVisible gs)"
proof (cases "dropWhile isBlank gs")
  case Nil
  have "lastVisible (dropWhile isBlank gs) = []" unfolding Nil by (simp add: lastVisible_def)
  then have "lastVisible gs = []" unfolding lastVisible_dropWhile .
  moreover have "lastVisible (trimStartLines gs) = []"
    unfolding trimStartLines_def Nil by (simp add: lastVisible_def isBlank_def)
  ultimately show ?thesis by simp
next
  case (Cons l r)
  have lnb: "\<not> isBlank l" using hd_dropWhile[of isBlank gs] unfolding Cons by simp
  then have dnb: "\<not> isBlank (dropWhile isWhiteSpace l)"
    unfolding isBlank_iff by (metis dropWhile_eq_Nil_conv hd_dropWhile hd_in_set)
  have g: "lastVisible gs = lastVisible (l # r)"
    using lastVisible_dropWhile[of gs] unfolding Cons by simp
  have t: "trimStartLines gs = dropWhile isWhiteSpace l # r"
    unfolding trimStartLines_def Cons by simp
  show ?thesis unfolding g t lastVisible_Cons using lnb dnb by simp
qed

lemma allfix_trimStartLines:
  assumes "\<And>s. g s = s \<Longrightarrow> g (dropWhile isWhiteSpace s) = dropWhile isWhiteSpace s"
    and "g [] = []" and "\<forall>l\<in>set gs. g l = l"
  shows "\<forall>l\<in>set (trimStartLines gs). g l = l"
proof (cases "dropWhile isBlank gs")
  case Nil
  show ?thesis unfolding trimStartLines_def Nil using assms(2) by simp
next
  case (Cons l r)
  have "set (l # r) \<subseteq> set gs" unfolding Cons[symmetric] using set_dropWhileD by fast
  with assms(3) have a: "\<forall>m\<in>set (l # r). g m = m" by blast
  then have "g (dropWhile isWhiteSpace l) = dropWhile isWhiteSpace l" using assms(1) by simp
  with a show ?thesis unfolding trimStartLines_def Cons by simp
qed

lemma allfix_trimEndLines:
  assumes "g [] = []" "\<forall>l\<in>set A. g l = l"
  shows "(\<forall>l\<in>set (trimEndLines A). g l = l)
           \<longleftrightarrow> g (trimEnd (lastVisible A)) = trimEnd (lastVisible A)"
proof (cases "dropWhile isBlank (rev A)")
  case Nil
  have "trimEnd [] = []" by (simp add: trimEnd_def)
  then show ?thesis unfolding trimEndLines_def lastVisible_def Nil using assms(1) by simp
next
  case (Cons l r)
  have "set (l # r) \<subseteq> set (rev A)" unfolding Cons[symmetric] using set_dropWhileD by fast
  with assms(2) have "\<forall>m\<in>set r. g m = m" by auto
  then show ?thesis unfolding trimEndLines_def lastVisible_def Cons by auto
qed

lemma dependencyLine_Nil [simp]: "dependencyLine f t [] = []"
  by (simp add: dependencyLine_def)

lemma map_fixed_iff: "map g X = X \<longleftrightarrow> (\<forall>l\<in>set X. g l = l)"
  using map_eq_conv[of g X id] by simp

lemma fixed_after_trimEnd_trimStart:
  assumes "CHR ''$'' \<notin> set f"
  shows "dependencyLine f t (trimEnd (dropWhile isWhiteSpace m)) = trimEnd (dropWhile isWhiteSpace m)
           \<longleftrightarrow> dependencyLine f t (trimEnd m) = trimEnd m"
  unfolding dependencyLine_fixed_iff[OF assms] trimEnd_trimStart spliceable_trimStart ..

lemma fixed_after_first_call:
  assumes "CHR ''$'' \<notin> set f"
  shows "dependencyLine f t (trimEnd (dependencyLine f t L)) = trimEnd (dependencyLine f t L)
           \<longleftrightarrow> (trimEnd L = L \<or> dependencyLine f t (trimEnd L) = trimEnd L)"
proof (cases "spliceable f t L")
  case True
  then have e: "trimEnd L = L" by (rule spliceable_ends)
  let ?n = "butlast L @ '' [dependsOn:'' @ f @ '']]''"
  have n: "dependencyLine f t L = ?n"
    unfolding dependencyLine_spliceable[OF assms] using True by simp
  have "\<not> isWhiteSpace (CHR '']'')" by (simp add: isWhiteSpace_def)
  then have "trimEnd ?n = ?n" by (intro trimEnd_fixed) simp_all
  then have "dependencyLine f t (trimEnd (dependencyLine f t L)) = trimEnd (dependencyLine f t L)"
    unfolding n[symmetric] using dependencyLine_idem[OF assms, of t L] by simp
  with e show ?thesis by blast
next
  case False
  then have g: "dependencyLine f t L = L" unfolding dependencyLine_fixed_iff[OF assms] .
  show ?thesis unfolding g using g by auto
qed

lemma dependency_twice_iff:
  assumes f: "CHR ''$'' \<notin> set f" "CHR 0x0A \<notin> set f"
  shows "trim (dependencyContent f t (trim (dependencyContent f t c)))
           = trim (dependencyContent f t c)
         \<longleftrightarrow> (trimEnd (lastVisibleLine c) = lastVisibleLine c
              \<or> dependencyLine f t (trimEnd (lastVisibleLine c)) = trimEnd (lastVisibleLine c))"
proof -
  let ?g = "dependencyLine f t"
  let ?ls = "split_str c"
  let ?gs = "map ?g ?ls"
  let ?c1 = "trim (dependencyContent f t c)"
  let ?A = "trimStartLines ?gs"
  let ?X = "trimEndLines ?A"
  note gentle = gentle_dependencyLine[OF f, of t]
  have gnl: "CHR 0x0A \<notin> set l \<Longrightarrow> CHR 0x0A \<notin> set (?g l)" for l
    using gentle unfolding gentle_def by blast
  have gsne: "?gs \<noteq> []" by simp
  have gsnl: "\<forall>l\<in>set ?gs. CHR 0x0A \<notin> set l"
    using gnl split_str_no_newline[of _ c] by auto
  have "dependencyContent f t c = joinLines ?gs @ [CHR 0x0A]"
    unfolding dependencyContent_lines using concat_lines_joinLines[OF gsne]
    by (simp add: comp_def)
  then have c1: "?c1 = trim (joinLines ?gs)" by simp
  have X: "split_str ?c1 = ?X" unfolding c1 by (rule split_trim_joinLines[OF gsne gsnl])
  have tc1: "trim ?c1 = ?c1" by (rule trim_idem)
  have c2: "trim (dependencyContent f t ?c1) = joinLines (map ?g ?X)"
    using dependency_trimmed(1)[OF f tc1, of t] unfolding X .
  have c1j: "?c1 = joinLines ?X" using joinLines_split_str[of ?c1] unfolding X by simp
  have Xnl: "\<forall>l\<in>set ?X. CHR 0x0A \<notin> set l"
    using split_str_no_newline[of _ ?c1] unfolding X by blast
  then have gXnl: "\<forall>l\<in>set (map ?g ?X). CHR 0x0A \<notin> set l" using gnl by auto
  have s1: "split_str (joinLines (map ?g ?X)) = map ?g ?X"
    by (rule split_str_joinLines[OF _ gXnl]) simp
  have s2: "split_str (joinLines ?X) = ?X"
    by (rule split_str_joinLines[OF _ Xnl]) simp
  have step1: "trim (dependencyContent f t ?c1) = ?c1 \<longleftrightarrow> map ?g ?X = ?X"
  proof
    assume "trim (dependencyContent f t ?c1) = ?c1"
    then have "joinLines (map ?g ?X) = joinLines ?X" using c2 c1j by simp
    then have "split_str (joinLines (map ?g ?X)) = split_str (joinLines ?X)" by (rule arg_cong)
    then show "map ?g ?X = ?X" unfolding s1 s2 .
  next
    assume "map ?g ?X = ?X"
    then have "joinLines (map ?g ?X) = joinLines ?X" by simp
    then show "trim (dependencyContent f t ?c1) = ?c1" using c2 c1j by simp
  qed
  have gsfix: "\<forall>l\<in>set ?gs. ?g l = l" using dependencyLine_idem[OF f(1), of t] by simp
  have ts: "?g s = s \<Longrightarrow> ?g (dropWhile isWhiteSpace s) = dropWhile isWhiteSpace s" for s
    unfolding dependencyLine_fixed_iff[OF f(1)] spliceable_trimStart .
  have Afix: "\<forall>l\<in>set ?A. ?g l = l"
    by (rule allfix_trimStartLines[of ?g, OF ts _ gsfix]) simp_all
  have step2: "(\<forall>l\<in>set ?X. ?g l = l)
                 \<longleftrightarrow> ?g (trimEnd (lastVisible ?A)) = trimEnd (lastVisible ?A)"
    by (rule allfix_trimEndLines[OF _ Afix]) simp
  have M: "lastVisible ?gs = ?g (lastVisibleLine c)"
    unfolding lastVisibleLine_lines
    by (rule lastVisible_map) (simp_all add: isBlank_dependencyLine[OF f(1)])
  have step3: "?g (trimEnd (lastVisible ?A)) = trimEnd (lastVisible ?A)
                 \<longleftrightarrow> ?g (trimEnd (lastVisible ?gs)) = trimEnd (lastVisible ?gs)"
    using lastVisible_trimStartLines[of ?gs]
      fixed_after_trimEnd_trimStart[OF f(1), of t "lastVisible ?gs"] by auto
  show ?thesis
    unfolding step1 map_fixed_iff step2 step3 M
    by (rule fixed_after_first_call[OF f(1)])
qed

section \<open>A pushed task stays in the collection\<close>

lemma lineCallback_fresh:
  assumes p: "parseLine l = Some p"
    and t: "taskId = (case idTag p of Some w \<Rightarrow> w
                       | None \<Rightarrow> ''task'' @ numToString (uniqueId st))"
    and n: "taskId \<notin> taskIds st"
  shows "tasks (lineCallback st l) = tasks st @ [taskOf taskId p]"
proof (cases "idTag p")
  case None
  then have e: "taskId = ''task'' @ numToString (uniqueId st)" using t by simp
  show ?thesis using n unfolding e lineCallback_synth[OF p None] by simp
next
  case (Some w)
  then have e: "taskId = w" using t by simp
  show ?thesis using n unfolding e lineCallback_explicit[OF p Some] by simp
qed

lemma pushed_task_stays:
  assumes a: "allLines v = before @ line # after"
    and p: "parseLine line = Some p"
    and t: "taskId = (case idTag p of Some w \<Rightarrow> w
                       | None \<Rightarrow> ''task'' @ numToString
                           (uniqueId (foldl lineCallback \<lparr>tasks = [], taskIds = {}, uniqueId = 1\<rparr> before)))"
    and n: "taskId \<notin> taskIds (foldl lineCallback \<lparr>tasks = [], taskIds = {}, uniqueId = 1\<rparr> before)"
  shows "taskOf taskId p \<in> set (getTasksFromNotes v)"
proof -
  let ?st = "foldl lineCallback \<lparr>tasks = [], taskIds = {}, uniqueId = 1\<rparr> before"
  have "getTasksFromNotes v = tasks (foldl lineCallback (lineCallback ?st line) after)"
    unfolding getTasksFromNotes_allLines a by simp
  also have "\<dots> = tasks (lineCallback ?st line)
                   @ keepNew (taskIds (lineCallback ?st line))
                       (candidates (uniqueId (lineCallback ?st line)) after)"
    by (rule tasks_foldl_lineCallback)
  finally show ?thesis unfolding lineCallback_fresh[OF p t n] by simp
qed

section \<open>The claims\<close>

subsection \<open>Extraction\<close>

text \<open>
  Claim C1. The collection that \<open>getTasksFromNotes\<close> returns never holds two tasks with
  the same identity. It is the list of candidates, in document-then-line order, from
  which every candidate is removed whose identity an earlier candidate already has: of
  the lines that yield one identity, explicit or synthesized, the first gives the task
  and the later ones are dropped.
\<close>

theorem C1_identity_uniqueness:
  "distinct (map id_t (getTasksFromNotes v)) \<and>
   getTasksFromNotes v =
     map (\<lambda>i. candidates 1 (allLines v) ! i)
         (filter (\<lambda>i. \<forall>j<i. id_t (candidates 1 (allLines v) ! j)
                               \<noteq> id_t (candidates 1 (allLines v) ! i))
                 [0..<length (candidates 1 (allLines v))])"
proof -
  have eq: "getTasksFromNotes v = keepNew {} (candidates 1 (allLines v))"
    by (simp add: getTasksFromNotes_allLines tasks_foldl_lineCallback)
  have "distinct (map id_t (getTasksFromNotes v))"
    unfolding eq using keepNew_ids[of "{}" "candidates 1 (allLines v)"] by simp
  moreover have "getTasksFromNotes v =
     map (\<lambda>i. candidates 1 (allLines v) ! i)
         (filter (\<lambda>i. \<forall>j<i. id_t (candidates 1 (allLines v) ! j)
                               \<noteq> id_t (candidates 1 (allLines v) ! i))
                 [0..<length (candidates 1 (allLines v))])"
    unfolding eq keepNew_index[of "{}"] by simp
  ultimately show ?thesis ..
qed

text \<open>
  Two files, four task lines: the identity \<open>a\<close> is declared twice, and the synthesized
  \<open>task1\<close> of the third line collides with the explicit \<open>task1\<close> of the fourth.
\<close>

theorem C1_identity_uniqueness_witness:
  "map id_t (candidates 1 (allLines (vaultOf
      [(''a.md'', ''- [ ] one [id:a]'' @ [CHR 0x0A] @ ''- [x] two [id:a]''),
       (''b.md'', ''- [ ] three'' @ [CHR 0x0A] @ ''- [ ] four [id:task1]'')])))
     = [''a'', ''a'', ''task1'', ''task1''] \<and>
   getTasksFromNotes (vaultOf
      [(''a.md'', ''- [ ] one [id:a]'' @ [CHR 0x0A] @ ''- [x] two [id:a]''),
       (''b.md'', ''- [ ] three'' @ [CHR 0x0A] @ ''- [ ] four [id:task1]'')])
     = [\<lparr>id_t = ''a'', name = ''one'', dependencies = [], completed = False\<rparr>,
        \<lparr>id_t = ''task1'', name = ''three'', dependencies = [], completed = False\<rparr>] \<and>
   distinct (map id_t (getTasksFromNotes (vaultOf
      [(''a.md'', ''- [ ] one [id:a]'' @ [CHR 0x0A] @ ''- [x] two [id:a]''),
       (''b.md'', ''- [ ] three'' @ [CHR 0x0A] @ ''- [ ] four [id:task1]'')])))"
proof (intro conjI)
  let ?v = "vaultOf
      [(''a.md'', ''- [ ] one [id:a]'' @ [CHR 0x0A] @ ''- [x] two [id:a]''),
       (''b.md'', ''- [ ] three'' @ [CHR 0x0A] @ ''- [ ] four [id:task1]'')]"
  show "map id_t (candidates 1 (allLines ?v)) = [''a'', ''a'', ''task1'', ''task1'']"
    by code_simp
  show "getTasksFromNotes ?v
     = [\<lparr>id_t = ''a'', name = ''one'', dependencies = [], completed = False\<rparr>,
        \<lparr>id_t = ''task1'', name = ''three'', dependencies = [], completed = False\<rparr>]"
    by code_simp
  show "distinct (map id_t (getTasksFromNotes ?v))"
    using C1_identity_uniqueness[of ?v] by (rule conjunct1)
qed

text \<open>
  Claim C5. The line \<open>- [ ] Buy milk [id:t1] [dependsOn:t0]\<close> is parsed to the label
  \<open>Buy milk\<close>, the identity \<open>t1\<close>, the dependencies \<open>["t0"]\<close> and the completion flag
  false, and a vault whose only document is this line yields exactly that task.
\<close>

theorem C5_label_stripping:
  "parseLine ''- [ ] Buy milk [id:t1] [dependsOn:t0]'' =
     Some \<lparr>idTag = Some ''t1'', label = ''Buy milk'', dependsOn = [''t0''], checked = False\<rparr> \<and>
   getTasksFromNotes (vaultOf [(file, ''- [ ] Buy milk [id:t1] [dependsOn:t0]'')]) =
     [\<lparr>id_t = ''t1'', name = ''Buy milk'', dependencies = [''t0''], completed = False\<rparr>]"
proof
  show p: "parseLine ''- [ ] Buy milk [id:t1] [dependsOn:t0]'' =
     Some \<lparr>idTag = Some ''t1'', label = ''Buy milk'', dependsOn = [''t0''], checked = False\<rparr>"
    by code_simp
  have sp: "split_str ''- [ ] Buy milk [id:t1] [dependsOn:t0]'' = [''- [ ] Buy milk [id:t1] [dependsOn:t0]'']"
    by code_simp
  show "getTasksFromNotes (vaultOf [(file, ''- [ ] Buy milk [id:t1] [dependsOn:t0]'')]) =
     [\<lparr>id_t = ''t1'', name = ''Buy milk'', dependencies = [''t0''], completed = False\<rparr>]"
    unfolding getTasksFromNotes_def vaultOf_def fileLoop_def read_def
    by (simp add: sp lineCallback_def p Let_def del: split_str.simps)
qed

text \<open>
  Claim C2 says that the completion flag of a recognized line is true exactly when the
  marker of the line is \<open>- [x]\<close>. The code computes the flag as
  \<open>line.includes('- [x]')\<close>, a search of the whole line, while
  \<open>toggleTaskCompletion\<close> decides by \<open>line.startsWith\<close>. On the line below the
  marker is \<open>- [ ]\<close> and the flag is true.
\<close>

theorem C2_completed_ignores_marker:
  "marker ''- [ ] reply to - [x] note'' = Some ''- [ ]'' \<and>
   map_option checked (parseLine ''- [ ] reply to - [x] note'') = Some True \<and>
   map completed (getTasksFromNotes (vaultOf [(''a.md'', ''- [ ] reply to - [x] note'')])) = [True]"
  by code_simp

text \<open>
  Claim C7, as amended. A line is recognized as a task exactly when it contains,
  at any position, \<open>- [\<close>, a space or an \<open>x\<close>, \<open>] \<close> and then at least one character
  that is not a line terminator; the pattern is not anchored at the start of the line,
  and an item text must not be empty. A line that is not recognized leaves the state of
  the build unchanged.
\<close>

theorem C7_task_recognition:
  "(parseLine line \<noteq> None \<longleftrightarrow>
      (\<exists>pre d c rest. line = pre @ ''- ['' @ [d] @ ''] '' @ c # rest
                        \<and> (d = CHR '' '' \<or> d = CHR ''x'') \<and> \<not> isLineTerminator c)) \<and>
   (parseLine line = None \<longrightarrow> lineCallback st line = st)"
proof
  have "parseLine line \<noteq> None \<longleftrightarrow> (\<exists>pre post. line = pre @ post \<and> taskMatchAt post \<noteq> None)"
    unfolding parseLine_None_iff by (rule taskMatch_iff)
  also have "\<dots> \<longleftrightarrow> (\<exists>pre d c rest. line = pre @ ''- ['' @ [d] @ ''] '' @ c # rest
                        \<and> (d = CHR '' '' \<or> d = CHR ''x'') \<and> \<not> isLineTerminator c)"
    unfolding taskMatchAt_iff by blast
  finally show "parseLine line \<noteq> None \<longleftrightarrow>
      (\<exists>pre d c rest. line = pre @ ''- ['' @ [d] @ ''] '' @ c # rest
                        \<and> (d = CHR '' '' \<or> d = CHR ''x'') \<and> \<not> isLineTerminator c)" .
  show "parseLine line = None \<longrightarrow> lineCallback st line = st"
    by (simp add: lineCallback_None)
qed

theorem C7_task_recognition_witness:
  "parseLine (''  '' @ ''- ['' @ [CHR ''x''] @ ''] '' @ CHR ''a'' # []) \<noteq> None \<and>
   parseLine ''- [ ] '' = None \<and>
   lineCallback \<lparr>tasks = [], taskIds = {}, uniqueId = 1\<rparr> ''- [ ] ''
     = \<lparr>tasks = [], taskIds = {}, uniqueId = 1\<rparr>"
proof (intro conjI)
  have nt: "\<not> isLineTerminator (CHR ''a'')" by (simp add: isLineTerminator_def)
  show "parseLine (''  '' @ ''- ['' @ [CHR ''x''] @ ''] '' @ CHR ''a'' # []) \<noteq> None"
    using C7_task_recognition[of "''  '' @ ''- ['' @ [CHR ''x''] @ ''] '' @ CHR ''a'' # []"] nt
    by blast
  show n: "parseLine ''- [ ] '' = None" by code_simp
  show "lineCallback \<lparr>tasks = [], taskIds = {}, uniqueId = 1\<rparr> ''- [ ] ''
     = \<lparr>tasks = [], taskIds = {}, uniqueId = 1\<rparr>"
    using C7_task_recognition[of "''- [ ] ''"] n by blast
qed

text \<open>
  The claim as stated reads "if and only if the line is of the form \<open>- [ ] ...\<close> or
  \<open>- [x] ...\<close>": the line below is recognized and is not of that form.
\<close>

theorem C7_counterexample:
  "parseLine ''see - [ ] me'' \<noteq> None \<and> \<not> checklistItem ''see - [ ] me''"
  by code_simp

text \<open>
  Claim C6. In a corpus where no recognized line carries an explicit identity tag, no
  line is dropped and the k-th recognized line, in document-then-line order, becomes the
  task with identity \<open>task\<close> followed by the decimal text of k: the identities are
  exactly \<open>task1\<close>, \<open>task2\<close>, ... The counter starts at 1 in every build.
\<close>

theorem C6_fallback_identities:
  assumes "\<forall>line\<in>set (allLines v). \<forall>p. parseLine line = Some p \<longrightarrow> idTag p = None"
  shows "getTasksFromNotes v =
           map (\<lambda>(k, p). taskOf (''task'' @ numToString k) p)
               (enumerate 1 (List.map_filter parseLine (allLines v))) \<and>
         map id_t (getTasksFromNotes v) =
           map (\<lambda>k. ''task'' @ numToString k) [1..<Suc (length (getTasksFromNotes v))]"
proof -
  let ?ps = "List.map_filter parseLine (allLines v)"
  let ?cs = "map (\<lambda>(k, p). taskOf (''task'' @ numToString k) p) (enumerate 1 ?ps)"
  have c: "candidates 1 (allLines v) = ?cs"
    using candidates_synth[OF assms, of 1] by simp
  have ids: "map id_t ?cs = map (\<lambda>k. ''task'' @ numToString k) [1..<1 + length ?ps]"
    by (rule synth_ids)
  have "distinct (map id_t ?cs)" unfolding ids by (rule synth_ids_distinct)
  then have k: "keepNew {} ?cs = ?cs" by (intro keepNew_all) simp_all
  have "getTasksFromNotes v = keepNew {} (candidates 1 (allLines v))"
    by (simp add: getTasksFromNotes_allLines tasks_foldl_lineCallback)
  also have "\<dots> = keepNew {} ?cs" by (simp only: c)
  also have "\<dots> = ?cs" by (rule k)
  finally have g: "getTasksFromNotes v = ?cs" .
  have "length (getTasksFromNotes v) = length ?ps" unfolding g by simp
  with ids g show ?thesis by simp
qed

text \<open>
  Two files, three task lines without identity tags and one line that is no task.
\<close>

theorem C6_fallback_identities_witness:
  "map id_t (getTasksFromNotes (vaultOf
      [(''a.md'', ''- [ ] one'' @ [CHR 0x0A] @ ''notes'' @ [CHR 0x0A] @ ''- [x] two [dependsOn:task1]''),
       (''b.md'', ''  - [ ] three'')]))
     = [''task1'', ''task2'', ''task3'']"
proof -
  let ?v = "vaultOf
      [(''a.md'', ''- [ ] one'' @ [CHR 0x0A] @ ''notes'' @ [CHR 0x0A] @ ''- [x] two [dependsOn:task1]''),
       (''b.md'', ''  - [ ] three'')]"
  have lines: "allLines ?v = [''- [ ] one'', ''notes'', ''- [x] two [dependsOn:task1]'', ''  - [ ] three'']"
    by code_simp
  have p1: "map_option idTag (parseLine ''- [ ] one'') = Some None" by code_simp
  have p2: "parseLine ''notes'' = None" by code_simp
  have p3: "map_option idTag (parseLine ''- [x] two [dependsOn:task1]'') = Some None" by code_simp
  have p4: "map_option idTag (parseLine ''  - [ ] three'') = Some None" by code_simp
  have h: "\<forall>line\<in>set (allLines ?v). \<forall>p. parseLine line = Some p \<longrightarrow> idTag p = None"
    unfolding lines using p1 p2 p3 p4 by auto
  have len: "length (getTasksFromNotes ?v) = 3" by code_simp
  have upt: "[1..<Suc 3] = [1, 2, 3]" by code_simp
  have n: "map (\<lambda>k. ''task'' @ numToString k) [1, 2, 3] = [''task1'', ''task2'', ''task3'']"
    by code_simp
  from C6_fallback_identities[OF h]
  have "map id_t (getTasksFromNotes ?v) =
           map (\<lambda>k. ''task'' @ numToString k) [1..<Suc (length (getTasksFromNotes ?v))]"
    by (rule conjunct2)
  then show ?thesis unfolding len upt n .
qed

subsection \<open>Projection\<close>

text \<open>
  Claim C9. Take a corpus with a line that the task pattern matches and whose item text
  holds \<open>[dependsOn:ghost]\<close>, for a \<open>ghost\<close> made of word characters. Let the
  identity of the line be its \<open>[id:...]\<close> tag, or else \<open>task\<close> followed by the counter
  that the build has reached at this line, and let that identity be new when the build
  reaches the line (no earlier line took it). If no extracted task has the identity
  \<open>ghost\<close>, then extraction returns a collection that holds the task of this line, with
  the fields of its parse and \<open>ghost\<close> among its dependencies; the projection holds the
  edge from \<open>ghost\<close> to the task and a node for the task, and no node with the identity
  \<open>ghost\<close>. Extraction and projection have no failing branch: they are total functions.
\<close>

theorem C9_dangling_dependency:
  assumes "allLines v = before @ line # after"
    and "isWord ghost"
    and "taskMatch line = Some (m0, m1)"
    and "includes_str (trim m1) (''[dependsOn:'' @ ghost @ '']'')"
    and "st = foldl lineCallback \<lparr>tasks = [], taskIds = {}, uniqueId = 1\<rparr> before"
    and "taskId = (case idMatch (trim m1) of Some w \<Rightarrow> w
                   | None \<Rightarrow> ''task'' @ numToString (uniqueId st))"
    and "taskId \<notin> taskIds st"
    and "ghost \<notin> set (map id_t (getTasksFromNotes v))"
  shows "\<exists>p. parseLine line = Some p \<and> ghost \<in> set (dependsOn p) \<and>
             \<lparr>id_t = taskId, name = label p, dependencies = dependsOn p,
              completed = checked p\<rparr> \<in> set (getTasksFromNotes v) \<and>
             \<lparr>from_id = ghost, to_id = taskId\<rparr> \<in> set (graphEdges (getTasksFromNotes v)) \<and>
             taskId \<in> set (map node_id (graphNodes (getTasksFromNotes v))) \<and>
             ghost \<notin> set (map node_id (graphNodes (getTasksFromNotes v)))"
proof -
  from parseLine_dependsOn[OF assms(2,3,4)]
  obtain p where p: "parseLine line = Some p" and g: "ghost \<in> set (dependsOn p)" by blast
  from parseLine_of_match[OF assms(3)] p have i: "idTag p = idMatch (trim m1)" by auto
  have t: "taskId = (case idTag p of Some w \<Rightarrow> w
                     | None \<Rightarrow> ''task'' @ numToString
                         (uniqueId (foldl lineCallback \<lparr>tasks = [], taskIds = {}, uniqueId = 1\<rparr> before)))"
    using assms(6) unfolding i assms(5) .
  have n: "taskId \<notin> taskIds (foldl lineCallback \<lparr>tasks = [], taskIds = {}, uniqueId = 1\<rparr> before)"
    using assms(7) unfolding assms(5) .
  have m: "taskOf taskId p \<in> set (getTasksFromNotes v)"
    using assms(1) p t n by (rule pushed_task_stays)
  have d: "ghost \<in> set (dependencies (taskOf taskId p))" using g by (simp add: taskOf_def)
  have e: "\<lparr>from_id = ghost, to_id = taskId\<rparr> \<in> set (graphEdges (getTasksFromNotes v))"
    using graphEdges_mem[OF m d] by (simp add: taskOf_def)
  have "id_t (taskOf taskId p) \<in> id_t ` set (getTasksFromNotes v)" using m by (rule imageI)
  then have k: "taskId \<in> set (map node_id (graphNodes (getTasksFromNotes v)))"
    unfolding graphNodes_ids by (simp add: taskOf_def)
  have a: "ghost \<notin> set (map node_id (graphNodes (getTasksFromNotes v)))"
    unfolding graphNodes_ids using assms(8) .
  from p g m e k a show ?thesis unfolding taskOf_def by blast
qed

text \<open>
  An instance: the second of three lines depends on \<open>ghost\<close>; the third line repeats
  its identity and is dropped.
\<close>

theorem C9_dangling_dependency_witness:
  "\<lparr>id_t = ''a'', name = ''ship it'', dependencies = [''ghost''], completed = True\<rparr>
     \<in> set (getTasksFromNotes (vaultOf [(''n.md'',
         ''- [ ] plan [id:p]'' @ [CHR 0x0A] @ ''- [x] ship it [id:a] [dependsOn:ghost]''
           @ [CHR 0x0A] @ ''- [ ] dup [id:a]'')])) \<and>
   \<lparr>from_id = ''ghost'', to_id = ''a''\<rparr>
     \<in> set (graphEdges (getTasksFromNotes (vaultOf [(''n.md'',
         ''- [ ] plan [id:p]'' @ [CHR 0x0A] @ ''- [x] ship it [id:a] [dependsOn:ghost]''
           @ [CHR 0x0A] @ ''- [ ] dup [id:a]'')]))) \<and>
   ''a'' \<in> set (map node_id (graphNodes (getTasksFromNotes (vaultOf [(''n.md'',
         ''- [ ] plan [id:p]'' @ [CHR 0x0A] @ ''- [x] ship it [id:a] [dependsOn:ghost]''
           @ [CHR 0x0A] @ ''- [ ] dup [id:a]'')])))) \<and>
   ''ghost'' \<notin> set (map node_id (graphNodes (getTasksFromNotes (vaultOf [(''n.md'',
         ''- [ ] plan [id:p]'' @ [CHR 0x0A] @ ''- [x] ship it [id:a] [dependsOn:ghost]''
           @ [CHR 0x0A] @ ''- [ ] dup [id:a]'')]))))"
proof -
  let ?v = "vaultOf [(''n.md'',
         ''- [ ] plan [id:p]'' @ [CHR 0x0A] @ ''- [x] ship it [id:a] [dependsOn:ghost]''
           @ [CHR 0x0A] @ ''- [ ] dup [id:a]'')]"
  let ?line = "''- [x] ship it [id:a] [dependsOn:ghost]''"
  let ?st = "foldl lineCallback \<lparr>tasks = [], taskIds = {}, uniqueId = 1\<rparr> [''- [ ] plan [id:p]'']"
  have h1: "allLines ?v = [''- [ ] plan [id:p]''] @ ?line # [''- [ ] dup [id:a]'']" by code_simp
  have h2: "isWord ''ghost''" by code_simp
  have h3: "taskMatch ?line = Some (?line, ''ship it [id:a] [dependsOn:ghost]'')" by code_simp
  have h4: "includes_str (trim ''ship it [id:a] [dependsOn:ghost]'')
              (''[dependsOn:'' @ ''ghost'' @ '']'')" by code_simp
  have h6: "''a'' = (case idMatch (trim ''ship it [id:a] [dependsOn:ghost]'') of Some w \<Rightarrow> w
                   | None \<Rightarrow> ''task'' @ numToString (uniqueId ?st))" by code_simp
  have h7: "''a'' \<notin> taskIds ?st" by code_simp
  have h8: "''ghost'' \<notin> set (map id_t (getTasksFromNotes ?v))" by code_simp
  from C9_dangling_dependency[OF h1 h2 h3 h4 refl h6 h7 h8]
  obtain p where p: "parseLine ?line = Some p"
    and m: "\<lparr>id_t = ''a'', name = label p, dependencies = dependsOn p,
              completed = checked p\<rparr> \<in> set (getTasksFromNotes ?v)"
    and r: "\<lparr>from_id = ''ghost'', to_id = ''a''\<rparr> \<in> set (graphEdges (getTasksFromNotes ?v))"
       "''a'' \<in> set (map node_id (graphNodes (getTasksFromNotes ?v)))"
       "''ghost'' \<notin> set (map node_id (graphNodes (getTasksFromNotes ?v)))"
    by blast
  have q: "parseLine ?line = Some \<lparr>idTag = Some ''a'', label = ''ship it'',
              dependsOn = [''ghost''], checked = True\<rparr>" by code_simp
  from p q have "p = \<lparr>idTag = Some ''a'', label = ''ship it'',
              dependsOn = [''ghost''], checked = True\<rparr>" by simp
  with m have "\<lparr>id_t = ''a'', name = ''ship it'', dependencies = [''ghost''], completed = True\<rparr>
     \<in> set (getTasksFromNotes ?v)" by simp
  with r show ?thesis by blast
qed

subsection \<open>Mutation\<close>

text \<open>
  Claim C3, as amended. Take a vault whose file handles are distinct and whose documents
  carry no leading or trailing white space (each equals its own \<open>trim\<close>). Toggling twice
  returns every document byte for byte. One toggle rewrites the lines of the corpus with
  \<open>toggleLine\<close>: a line that contains \<open>[id:taskId]\<close> and starts with \<open>- [ ]\<close> or
  \<open>- [x]\<close> has that marker swapped, whichever identity the task of the line has, and
  every other line is unchanged. Re-extraction yields the same tasks in the same order
  with the same identity, label and dependencies; the parse of a rewritten line differs
  at most in the completion flag, and a line that went from \<open>- [ ]\<close> to \<open>- [x]\<close> is
  extracted as completed. (What the flag of a line that went from \<open>- [x]\<close> to
  \<open>- [ ]\<close> is depends on the rest of the line, see C2, and is left out.)
\<close>

theorem C3_toggle_round_trip:
  assumes "distinct (files v)"
    and "\<forall>file\<in>set (files v). trim (contents v file) = contents v file"
  shows "contents (toggleTaskCompletion taskId (toggleTaskCompletion taskId v)) = contents v \<and>
         files (toggleTaskCompletion taskId (toggleTaskCompletion taskId v)) = files v \<and>
         allLines (toggleTaskCompletion taskId v) = map (toggleLine taskId) (allLines v) \<and>
         map (\<lambda>task. (id_t task, name task, dependencies task))
             (getTasksFromNotes (toggleTaskCompletion taskId v))
           = map (\<lambda>task. (id_t task, name task, dependencies task)) (getTasksFromNotes v) \<and>
         parseLine (toggleLine taskId l) =
           map_option (\<lambda>p. p\<lparr>checked := includes_str (toggleLine taskId l) ''- [x]''\<rparr>)
                      (parseLine l) \<and>
         (includes_str l (''[id:'' @ taskId @ '']'') \<and> startsWith l ''- [ ]'' \<longrightarrow>
            toggleLine taskId l = ''- [x]'' @ drop 5 l
            \<and> includes_str (toggleLine taskId l) ''- [x]'') \<and>
         (includes_str l (''[id:'' @ taskId @ '']'') \<and> startsWith l ''- [x]'' \<longrightarrow>
            toggleLine taskId l = ''- [ ]'' @ drop 5 l) \<and>
         (\<not> (includes_str l (''[id:'' @ taskId @ '']'')
              \<and> (startsWith l ''- [ ]'' \<or> startsWith l ''- [x]'')) \<longrightarrow>
            toggleLine taskId l = l)"
proof (intro conjI impI)
  let ?rw = "\<lambda>c. trim (toggleContent taskId c)"
  have tr: "trim (contents v fl) = contents v fl" if "fl \<in> set (files v)" for fl
    using assms(2) that by blast
  have "contents (toggleTaskCompletion taskId (toggleTaskCompletion taskId v)) =
          (\<lambda>file. if file \<in> set (files v) then contents v file else contents v file)"
    unfolding toggleTaskCompletion_def
    by (rule rewrite_loop_twice[OF assms(1), of ?rw "\<lambda>c. c"])
       (simp only: toggle_twice_content[OF tr])
  then show "contents (toggleTaskCompletion taskId (toggleTaskCompletion taskId v)) = contents v"
    by simp
  have f1: "files (toggleTaskCompletion taskId u) = files u" if "distinct (files u)" for u
    using rewrite_loop[OF that, of ?rw u, folded toggleTaskCompletion_def] by (rule conjunct1)
  show "files (toggleTaskCompletion taskId (toggleTaskCompletion taskId v)) = files v"
    using f1[OF assms(1)] f1[of "toggleTaskCompletion taskId v"] assms(1) by simp
  show al: "allLines (toggleTaskCompletion taskId v) = map (toggleLine taskId) (allLines v)"
    unfolding toggleTaskCompletion_def
    by (rule allLines_rewritten[OF assms(1)]) (rule toggle_trimmed(2)[OF tr])
  show "map (\<lambda>task. (id_t task, name task, dependencies task))
             (getTasksFromNotes (toggleTaskCompletion taskId v))
           = map (\<lambda>task. (id_t task, name task, dependencies task)) (getTasksFromNotes v)"
    by (rule getTasksFromNotes_same_fields[OF parseLine_toggleLine al])
  show "parseLine (toggleLine taskId l) =
           map_option (\<lambda>p. p\<lparr>checked := includes_str (toggleLine taskId l) ''- [x]''\<rparr>)
                      (parseLine l)"
    by (rule parseLine_toggleLine)
  show "toggleLine taskId l = ''- [x]'' @ drop 5 l"
    if "includes_str l (''[id:'' @ taskId @ '']'') \<and> startsWith l ''- [ ]''"
    using that toggleLine_check(1)[of l taskId] by blast
  show "includes_str (toggleLine taskId l) ''- [x]''"
    if "includes_str l (''[id:'' @ taskId @ '']'') \<and> startsWith l ''- [ ]''"
    using that toggleLine_check(2)[of l taskId] by blast
  show "toggleLine taskId l = ''- [ ]'' @ drop 5 l"
    if "includes_str l (''[id:'' @ taskId @ '']'') \<and> startsWith l ''- [x]''"
    using that toggleLine_uncheck[of l taskId] by blast
  show "toggleLine taskId l = l"
    if "\<not> (includes_str l (''[id:'' @ taskId @ '']'')
              \<and> (startsWith l ''- [ ]'' \<or> startsWith l ''- [x]''))"
    using that by (rule toggleLine_unchanged)
qed

text \<open>
  One document, two tasks; the first is toggled.
\<close>

theorem C3_toggle_round_trip_witness:
  "contents (toggleTaskCompletion ''t'' (toggleTaskCompletion ''t''
      (vaultOf [(''a.md'', ''- [ ] a [id:t]'' @ [CHR 0x0A] @ ''- [x] b [id:u]'')]))) ''a.md''
     = ''- [ ] a [id:t]'' @ [CHR 0x0A] @ ''- [x] b [id:u]'' \<and>
   getTasksFromNotes (vaultOf [(''a.md'', ''- [ ] a [id:t]'' @ [CHR 0x0A] @ ''- [x] b [id:u]'')])
     = [\<lparr>id_t = ''t'', name = ''a'', dependencies = [], completed = False\<rparr>,
        \<lparr>id_t = ''u'', name = ''b'', dependencies = [], completed = True\<rparr>] \<and>
   getTasksFromNotes (toggleTaskCompletion ''t''
      (vaultOf [(''a.md'', ''- [ ] a [id:t]'' @ [CHR 0x0A] @ ''- [x] b [id:u]'')]))
     = [\<lparr>id_t = ''t'', name = ''a'', dependencies = [], completed = True\<rparr>,
        \<lparr>id_t = ''u'', name = ''b'', dependencies = [], completed = True\<rparr>] \<and>
   toggleLine ''t'' ''- [ ] a [id:t]'' = ''- [x]'' @ drop 5 ''- [ ] a [id:t]'' \<and>
   toggleLine ''t'' ''- [x] a [id:t]'' = ''- [ ]'' @ drop 5 ''- [x] a [id:t]'' \<and>
   toggleLine ''t'' ''- [x] b [id:u]'' = ''- [x] b [id:u]''"
proof -
  let ?c = "''- [ ] a [id:t]'' @ [CHR 0x0A] @ ''- [x] b [id:u]''"
  let ?v = "vaultOf [(''a.md'', ?c)]"
  have d: "distinct (files ?v)" by code_simp
  have fs: "files ?v = [''a.md'']" by code_simp
  have c: "contents ?v ''a.md'' = ?c" by code_simp
  have t1: "trim (contents ?v ''a.md'') = contents ?v ''a.md''" by code_simp
  have h: "\<forall>file\<in>set (files ?v). trim (contents ?v file) = contents ?v file"
    unfolding fs using t1 by simp
  note th = C3_toggle_round_trip[OF d h, of "''t''"]
  from th[of "[]"]
  have "contents (toggleTaskCompletion ''t'' (toggleTaskCompletion ''t'' ?v)) = contents ?v"
    by (rule conjunct1)
  then have "contents (toggleTaskCompletion ''t'' (toggleTaskCompletion ''t'' ?v)) ''a.md''
               = contents ?v ''a.md''" by (rule fun_cong)
  then have 1: "contents (toggleTaskCompletion ''t'' (toggleTaskCompletion ''t'' ?v)) ''a.md'' = ?c"
    unfolding c .
  have 2: "getTasksFromNotes ?v
     = [\<lparr>id_t = ''t'', name = ''a'', dependencies = [], completed = False\<rparr>,
        \<lparr>id_t = ''u'', name = ''b'', dependencies = [], completed = True\<rparr>]" by code_simp
  have 3: "getTasksFromNotes (toggleTaskCompletion ''t'' ?v)
     = [\<lparr>id_t = ''t'', name = ''a'', dependencies = [], completed = True\<rparr>,
        \<lparr>id_t = ''u'', name = ''b'', dependencies = [], completed = True\<rparr>]" by code_simp
  have i1: "includes_str ''- [ ] a [id:t]'' (''[id:'' @ ''t'' @ '']'') \<and> startsWith ''- [ ] a [id:t]'' ''- [ ]''"
    by code_simp
  have i2: "includes_str ''- [x] a [id:t]'' (''[id:'' @ ''t'' @ '']'') \<and> startsWith ''- [x] a [id:t]'' ''- [x]''"
    by code_simp
  have i3: "\<not> (includes_str ''- [x] b [id:u]'' (''[id:'' @ ''t'' @ '']'')
       \<and> (startsWith ''- [x] b [id:u]'' ''- [ ]'' \<or> startsWith ''- [x] b [id:u]'' ''- [x]''))"
    by code_simp
  from th[of "''- [ ] a [id:t]''"] i1
  have 4: "toggleLine ''t'' ''- [ ] a [id:t]'' = ''- [x]'' @ drop 5 ''- [ ] a [id:t]''" by blast
  from th[of "''- [x] a [id:t]''"] i2
  have 5: "toggleLine ''t'' ''- [x] a [id:t]'' = ''- [ ]'' @ drop 5 ''- [x] a [id:t]''" by blast
  from th[of "''- [x] b [id:u]''"] i3
  have 6: "toggleLine ''t'' ''- [x] b [id:u]'' = ''- [x] b [id:u]''" by blast
  from 1 2 3 4 5 6 show ?thesis by blast
qed

text \<open>
  The claim as stated fails on a document that ends with a line feed: the rewritten
  document is trimmed, so two toggles do not give the original back. And a task with
  another identity changes when its line merely contains the tag.
\<close>

theorem C3_counterexample:
  "contents (vaultOf [(''a.md'', ''- [ ] a [id:t]'' @ [CHR 0x0A])]) ''a.md''
     = ''- [ ] a [id:t]'' @ [CHR 0x0A] \<and>
   contents (toggleTaskCompletion ''t'' (toggleTaskCompletion ''t''
       (vaultOf [(''a.md'', ''- [ ] a [id:t]'' @ [CHR 0x0A])]))) ''a.md''
     = ''- [ ] a [id:t]'' \<and>
   map (\<lambda>task. (id_t task, completed task))
       (getTasksFromNotes
          (vaultOf [(''b.md'', ''- [ ] a [id:t]'' @ [CHR 0x0A] @ ''- [ ] b [id:u] after [id:t]'')]))
     = [(''t'', False), (''u'', False)] \<and>
   map (\<lambda>task. (id_t task, completed task))
       (getTasksFromNotes (toggleTaskCompletion ''t''
          (vaultOf [(''b.md'', ''- [ ] a [id:t]'' @ [CHR 0x0A] @ ''- [ ] b [id:u] after [id:t]'')])))
     = [(''t'', True), (''u'', True)]"
  by (intro conjI; code_simp)

text \<open>
  Claim C8, as amended. With distinct file handles, \<open>toggleTaskCompletion\<close> calls
  \<open>vault.modify\<close> once for every file of the vault, in listing order, whether or not
  the document has a matching line. What it writes is the document's lines, each
  rewritten by \<open>toggleLine\<close> and followed by a line feed, the whole then trimmed. A
  line is changed only if it contains \<open>[id:taskId]\<close> and starts with \<open>- [ ]\<close> or
  \<open>- [x]\<close>; in a document without leading or trailing white space the written lines are
  exactly the rewritten lines, so every other line is written back byte for byte.
\<close>

theorem C8_toggle_writes:
  assumes "distinct (files v)"
  shows "modified (toggleTaskCompletion taskId v) =
           modified v @ map (\<lambda>file. (file, trim (toggleContent taskId (contents v file)))) (files v) \<and>
         contents (toggleTaskCompletion taskId v) =
           (\<lambda>file. if file \<in> set (files v) then trim (toggleContent taskId (contents v file))
                    else contents v file) \<and>
         toggleContent taskId c =
           concat (map (\<lambda>l. toggleLine taskId l @ [CHR 0x0A]) (split_str c)) \<and>
         (toggleLine taskId l \<noteq> l \<longrightarrow>
            includes_str l (''[id:'' @ taskId @ '']'')
            \<and> (startsWith l ''- [ ]'' \<or> startsWith l ''- [x]'')) \<and>
         (trim c = c \<longrightarrow>
            split_str (trim (toggleContent taskId c)) = map (toggleLine taskId) (split_str c))"
proof (intro conjI impI)
  note loop = rewrite_loop[OF assms, of "\<lambda>c. trim (toggleContent taskId c)" v,
      folded toggleTaskCompletion_def]
  show "modified (toggleTaskCompletion taskId v) =
           modified v @ map (\<lambda>file. (file, trim (toggleContent taskId (contents v file)))) (files v)"
    using loop by (rule conjunct2[THEN conjunct2])
  show "contents (toggleTaskCompletion taskId v) =
           (\<lambda>file. if file \<in> set (files v) then trim (toggleContent taskId (contents v file))
                    else contents v file)"
    using loop by (rule conjunct2[THEN conjunct1])
  show "toggleContent taskId c =
           concat (map (\<lambda>l. toggleLine taskId l @ [CHR 0x0A]) (split_str c))"
    by (rule toggleContent_lines)
  show "includes_str l (''[id:'' @ taskId @ '']'')" if "toggleLine taskId l \<noteq> l"
    using that toggleLine_unchanged[of l taskId] by blast
  show "startsWith l ''- [ ]'' \<or> startsWith l ''- [x]''" if "toggleLine taskId l \<noteq> l"
    using that toggleLine_unchanged[of l taskId] by blast
  show "split_str (trim (toggleContent taskId c)) = map (toggleLine taskId) (split_str c)"
    if "trim c = c"
    using that by (rule toggle_trimmed(2))
qed

text \<open>
  Two documents, one with a matching line and one without: both are written.
\<close>

theorem C8_toggle_writes_witness:
  "modified (toggleTaskCompletion ''t''
      (vaultOf [(''a.md'', ''- [ ] x [id:t]'' @ [CHR 0x0A] @ ''plain''), (''b.md'', ''other'')]))
     = [(''a.md'', ''- [x] x [id:t]'' @ [CHR 0x0A] @ ''plain''), (''b.md'', ''other'')] \<and>
   includes_str ''- [ ] x [id:t]'' (''[id:'' @ ''t'' @ '']'') \<and>
   (startsWith ''- [ ] x [id:t]'' ''- [ ]'' \<or> startsWith ''- [ ] x [id:t]'' ''- [x]'') \<and>
   split_str (trim (toggleContent ''t'' (''- [ ] x [id:t]'' @ [CHR 0x0A] @ ''plain'')))
     = map (toggleLine ''t'') (split_str (''- [ ] x [id:t]'' @ [CHR 0x0A] @ ''plain''))"
proof -
  let ?c = "''- [ ] x [id:t]'' @ [CHR 0x0A] @ ''plain''"
  let ?v = "vaultOf [(''a.md'', ?c), (''b.md'', ''other'')]"
  have d: "distinct (files ?v)" by code_simp
  have ch: "toggleLine ''t'' ''- [ ] x [id:t]'' \<noteq> ''- [ ] x [id:t]''" by code_simp
  have tr: "trim ?c = ?c" by code_simp
  have rhs: "modified ?v @ map (\<lambda>file. (file, trim (toggleContent ''t'' (contents ?v file)))) (files ?v)
     = [(''a.md'', ''- [x] x [id:t]'' @ [CHR 0x0A] @ ''plain''), (''b.md'', ''other'')]"
    by code_simp
  note th = C8_toggle_writes[OF d, of "''t''" ?c "''- [ ] x [id:t]''"]
  from th have "modified (toggleTaskCompletion ''t'' ?v) =
     modified ?v @ map (\<lambda>file. (file, trim (toggleContent ''t'' (contents ?v file)))) (files ?v)"
    by (rule conjunct1)
  then have 1: "modified (toggleTaskCompletion ''t'' ?v)
     = [(''a.md'', ''- [x] x [id:t]'' @ [CHR 0x0A] @ ''plain''), (''b.md'', ''other'')]"
    unfolding rhs .
  from th ch have 2: "includes_str ''- [ ] x [id:t]'' (''[id:'' @ ''t'' @ '']'')
    \<and> (startsWith ''- [ ] x [id:t]'' ''- [ ]'' \<or> startsWith ''- [ ] x [id:t]'' ''- [x]'')"
    by blast
  from th tr have 3: "split_str (trim (toggleContent ''t'' ?c))
     = map (toggleLine ''t'') (split_str ?c)"
    by blast
  from 1 2 3 show ?thesis by blast
qed

text \<open>
  The claim as stated fails on a document without any matching line: it is written all
  the same, and trimming has changed its first line and dropped its last.
\<close>

theorem C8_counterexample:
  "\<not> includes_str ('' hello'' @ [CHR 0x0A]) ''[id:t]'' \<and>
   modified (toggleTaskCompletion ''t'' (vaultOf [(''n.md'', '' hello'' @ [CHR 0x0A])]))
     = [(''n.md'', ''hello'')] \<and>
   split_str (contents (vaultOf [(''n.md'', '' hello'' @ [CHR 0x0A])]) ''n.md'')
     = ['' hello'', ''''] \<and>
   split_str (contents (toggleTaskCompletion ''t'' (vaultOf [(''n.md'', '' hello'' @ [CHR 0x0A])]))
                ''n.md'')
     = [''hello'']"
  by (intro conjI; code_simp)




text \<open>
  Claim C4, as amended. Take a vault whose file handles are distinct and an identity
  \<open>fromTaskId\<close> made of word characters. A second \<open>updateTaskDependency\<close> leaves every
  document as the first left it if and only if no document is of the following kind:
  its last line that holds a character other than white space ends in white space and,
  with that white space removed, is a line that \<open>dependencyLine\<close> rewrites. (The first
  call leaves such a line alone, because it does not end in \<open>]\<close>, and writes the document
  trimmed; the second call then finds the bracket at the end of the line.) The file list
  is the same after both calls. When no document carries white space at either end, the
  first call rewrites the lines of the corpus with \<open>dependencyLine\<close>. Line by line:
  \<open>dependencyLine\<close> applied twice is \<open>dependencyLine\<close> applied once; a line that already
  contains \<open>[dependsOn:fromTaskId]\<close>, a line without \<open>[id:toTaskId]\<close> and a line that
  does not end in \<open>]\<close> are unchanged; any other line gets \<open> [dependsOn:fromTaskId]\<close>
  spliced in before its final \<open>]\<close>.
\<close>

theorem C4_dependency_idempotent:
  assumes "distinct (files v)" and "isWord fromTaskId"
  shows "(contents (updateTaskDependency fromTaskId toTaskId
                     (updateTaskDependency fromTaskId toTaskId v))
            = contents (updateTaskDependency fromTaskId toTaskId v)
          \<longleftrightarrow> (\<forall>file\<in>set (files v).
                 trimEnd (lastVisibleLine (contents v file)) = lastVisibleLine (contents v file)
                 \<or> dependencyLine fromTaskId toTaskId (trimEnd (lastVisibleLine (contents v file)))
                     = trimEnd (lastVisibleLine (contents v file)))) \<and>
         files (updateTaskDependency fromTaskId toTaskId
                     (updateTaskDependency fromTaskId toTaskId v))
           = files (updateTaskDependency fromTaskId toTaskId v) \<and>
         ((\<forall>file\<in>set (files v). trim (contents v file) = contents v file) \<longrightarrow>
            allLines (updateTaskDependency fromTaskId toTaskId v)
              = map (dependencyLine fromTaskId toTaskId) (allLines v)) \<and>
         dependencyLine fromTaskId toTaskId (dependencyLine fromTaskId toTaskId l)
           = dependencyLine fromTaskId toTaskId l \<and>
         (includes_str l (''[dependsOn:'' @ fromTaskId @ '']'') \<longrightarrow>
            dependencyLine fromTaskId toTaskId l = l) \<and>
         (\<not> includes_str l (''[id:'' @ toTaskId @ '']'') \<longrightarrow>
            dependencyLine fromTaskId toTaskId l = l) \<and>
         (l = [] \<or> last l \<noteq> CHR '']'' \<longrightarrow> dependencyLine fromTaskId toTaskId l = l) \<and>
         (includes_str l (''[id:'' @ toTaskId @ '']'')
            \<and> \<not> includes_str l (''[dependsOn:'' @ fromTaskId @ '']'')
            \<and> l \<noteq> [] \<and> last l = CHR '']'' \<longrightarrow>
            dependencyLine fromTaskId toTaskId l
              = butlast l @ '' [dependsOn:'' @ fromTaskId @ '']]'')"
proof (intro conjI impI)
  let ?rw = "\<lambda>c. trim (dependencyContent fromTaskId toTaskId c)"
  let ?ok = "\<lambda>c. trimEnd (lastVisibleLine c) = lastVisibleLine c
                 \<or> dependencyLine fromTaskId toTaskId (trimEnd (lastVisibleLine c))
                     = trimEnd (lastVisibleLine c)"
  note w = isWord_chars(1,2)[OF assms(2)]
  note eq = dependencyLine_eq[OF w(1), of toTaskId l]
  have l1: "files (updateTaskDependency fromTaskId toTaskId u) = files u"
     "contents (updateTaskDependency fromTaskId toTaskId u) =
        (\<lambda>file. if file \<in> set (files u) then ?rw (contents u file) else contents u file)"
    if "distinct (files u)" for u
    using rewrite_loop[OF that, of ?rw u, folded updateTaskDependency_def] by simp_all
  have twice: "contents (updateTaskDependency fromTaskId toTaskId
                     (updateTaskDependency fromTaskId toTaskId v))
        = (\<lambda>file. if file \<in> set (files v) then ?rw (?rw (contents v file)) else contents v file)"
    unfolding updateTaskDependency_def
    by (rule rewrite_loop_twice[OF assms(1), of ?rw "\<lambda>c. ?rw (?rw c)"]) simp
  have doc: "?rw (?rw c) = ?rw c \<longleftrightarrow> ?ok c" for c
    by (rule dependency_twice_iff[OF w])
  have "contents (updateTaskDependency fromTaskId toTaskId
                     (updateTaskDependency fromTaskId toTaskId v))
            = contents (updateTaskDependency fromTaskId toTaskId v)
          \<longleftrightarrow> (\<forall>fl\<in>set (files v). ?rw (?rw (contents v fl)) = ?rw (contents v fl))"
    unfolding twice l1(2)[OF assms(1)] by (auto simp: fun_eq_iff)
  then show "contents (updateTaskDependency fromTaskId toTaskId
                     (updateTaskDependency fromTaskId toTaskId v))
            = contents (updateTaskDependency fromTaskId toTaskId v)
          \<longleftrightarrow> (\<forall>file\<in>set (files v). ?ok (contents v file))"
    unfolding doc .
  show "files (updateTaskDependency fromTaskId toTaskId
                     (updateTaskDependency fromTaskId toTaskId v))
           = files (updateTaskDependency fromTaskId toTaskId v)"
    using l1(1)[OF assms(1)] l1(1)[of "updateTaskDependency fromTaskId toTaskId v"] assms(1)
    by simp
  show "allLines (updateTaskDependency fromTaskId toTaskId v)
           = map (dependencyLine fromTaskId toTaskId) (allLines v)"
    if tr: "\<forall>file\<in>set (files v). trim (contents v file) = contents v file"
  proof -
    have tr': "trim (contents v fl) = contents v fl" if "fl \<in> set (files v)" for fl
      using tr that by blast
    show ?thesis
      unfolding updateTaskDependency_def
      by (rule allLines_rewritten[OF assms(1)]) (rule dependency_trimmed(2)[OF w tr'])
  qed
  show "dependencyLine fromTaskId toTaskId (dependencyLine fromTaskId toTaskId l)
           = dependencyLine fromTaskId toTaskId l"
    by (rule dependencyLine_idem[OF w(1)])
  show "dependencyLine fromTaskId toTaskId l = l"
    if "includes_str l (''[dependsOn:'' @ fromTaskId @ '']'')"
    unfolding eq using that by simp
  show "dependencyLine fromTaskId toTaskId l = l"
    if "\<not> includes_str l (''[id:'' @ toTaskId @ '']'')"
    unfolding eq using that by simp
  show "dependencyLine fromTaskId toTaskId l = l" if "l = [] \<or> last l \<noteq> CHR '']''"
    unfolding eq using that by auto
  show "dependencyLine fromTaskId toTaskId l = butlast l @ '' [dependsOn:'' @ fromTaskId @ '']]''"
    if "includes_str l (''[id:'' @ toTaskId @ '']'')
            \<and> \<not> includes_str l (''[dependsOn:'' @ fromTaskId @ '']'')
            \<and> l \<noteq> [] \<and> last l = CHR '']''"
    unfolding eq using that by simp
qed

text \<open>
  An instance: a document with white space at its start and a final line feed, a document
  whose last line ends in spaces but lacks the identity tag, and a document without white
  space at its ends.
\<close>

theorem C4_dependency_idempotent_witness:
  "contents (updateTaskDependency ''A'' ''B'' (updateTaskDependency ''A'' ''B''
      (vaultOf [(''a.md'', ''  intro'' @ [CHR 0x0A] @ ''- [ ] a [id:B]'' @ [CHR 0x0A]),
                (''b.md'', ''- [ ] b [id:A]  '')]))) ''a.md''
     = ''intro'' @ [CHR 0x0A] @ ''- [ ] a [id:B [dependsOn:A]]'' \<and>
   contents (updateTaskDependency ''A'' ''B'' (updateTaskDependency ''A'' ''B''
      (vaultOf [(''a.md'', ''  intro'' @ [CHR 0x0A] @ ''- [ ] a [id:B]'' @ [CHR 0x0A]),
                (''b.md'', ''- [ ] b [id:A]  '')]))) ''b.md''
     = ''- [ ] b [id:A]'' \<and>
   allLines (updateTaskDependency ''A'' ''B''
      (vaultOf [(''c.md'', ''- [ ] a [id:B]'' @ [CHR 0x0A] @ ''- [ ] b [id:A]'')]))
     = map (dependencyLine ''A'' ''B'')
         (allLines (vaultOf [(''c.md'', ''- [ ] a [id:B]'' @ [CHR 0x0A] @ ''- [ ] b [id:A]'')])) \<and>
   dependencyLine ''A'' ''B'' ''- [ ] a [id:B]''
     = butlast ''- [ ] a [id:B]'' @ '' [dependsOn:'' @ ''A'' @ '']]'' \<and>
   dependencyLine ''A'' ''B'' ''- [ ] a [dependsOn:A] [id:B]'' = ''- [ ] a [dependsOn:A] [id:B]'' \<and>
   dependencyLine ''A'' ''B'' ''- [ ] b [id:A]'' = ''- [ ] b [id:A]'' \<and>
   dependencyLine ''A'' ''B'' ''- [ ] a [id:B] soon'' = ''- [ ] a [id:B] soon''"
proof -
  let ?ca = "''  intro'' @ [CHR 0x0A] @ ''- [ ] a [id:B]'' @ [CHR 0x0A]"
  let ?cb = "''- [ ] b [id:A]  ''"
  let ?v = "vaultOf [(''a.md'', ?ca), (''b.md'', ?cb)]"
  let ?cc = "''- [ ] a [id:B]'' @ [CHR 0x0A] @ ''- [ ] b [id:A]''"
  let ?u = "vaultOf [(''c.md'', ?cc)]"
  have w: "isWord ''A''" by code_simp
  have d: "distinct (files ?v)" by code_simp
  have fs: "files ?v = [''a.md'', ''b.md'']" by code_simp
  have oka: "trimEnd (lastVisibleLine (contents ?v ''a.md'')) = lastVisibleLine (contents ?v ''a.md'')"
    by code_simp
  have okb: "dependencyLine ''A'' ''B'' (trimEnd (lastVisibleLine (contents ?v ''b.md'')))
               = trimEnd (lastVisibleLine (contents ?v ''b.md''))"
    by code_simp
  have h: "\<forall>file\<in>set (files ?v).
                 trimEnd (lastVisibleLine (contents ?v file)) = lastVisibleLine (contents ?v file)
                 \<or> dependencyLine ''A'' ''B'' (trimEnd (lastVisibleLine (contents ?v file)))
                     = trimEnd (lastVisibleLine (contents ?v file))"
    unfolding fs using oka okb by simp
  note th = C4_dependency_idempotent[OF d w, of "''B''"]
  have oncea: "contents (updateTaskDependency ''A'' ''B'' ?v) ''a.md''
     = ''intro'' @ [CHR 0x0A] @ ''- [ ] a [id:B [dependsOn:A]]''" by code_simp
  have onceb: "contents (updateTaskDependency ''A'' ''B'' ?v) ''b.md'' = ''- [ ] b [id:A]''"
    by code_simp
  from th[of "[]"] h
  have e: "contents (updateTaskDependency ''A'' ''B'' (updateTaskDependency ''A'' ''B'' ?v))
          = contents (updateTaskDependency ''A'' ''B'' ?v)" by blast
  have 1: "contents (updateTaskDependency ''A'' ''B'' (updateTaskDependency ''A'' ''B'' ?v)) ''a.md''
     = ''intro'' @ [CHR 0x0A] @ ''- [ ] a [id:B [dependsOn:A]]''"
    unfolding e oncea ..
  have 2: "contents (updateTaskDependency ''A'' ''B'' (updateTaskDependency ''A'' ''B'' ?v)) ''b.md''
     = ''- [ ] b [id:A]''"
    unfolding e onceb ..
  have du: "distinct (files ?u)" by code_simp
  have fu: "files ?u = [''c.md'']" by code_simp
  have tu: "trim (contents ?u ''c.md'') = contents ?u ''c.md''" by code_simp
  have hu: "\<forall>file\<in>set (files ?u). trim (contents ?u file) = contents ?u file"
    unfolding fu using tu by simp
  from C4_dependency_idempotent[OF du w, of "''B''" "[]"] hu
  have 3: "allLines (updateTaskDependency ''A'' ''B'' ?u)
             = map (dependencyLine ''A'' ''B'') (allLines ?u)" by blast
  have i1: "includes_str ''- [ ] a [id:B]'' (''[id:'' @ ''B'' @ '']'')
            \<and> \<not> includes_str ''- [ ] a [id:B]'' (''[dependsOn:'' @ ''A'' @ '']'')
            \<and> ''- [ ] a [id:B]'' \<noteq> [] \<and> last ''- [ ] a [id:B]'' = CHR '']''" by code_simp
  have i2: "includes_str ''- [ ] a [dependsOn:A] [id:B]'' (''[dependsOn:'' @ ''A'' @ '']'')"
    by code_simp
  have i3: "\<not> includes_str ''- [ ] b [id:A]'' (''[id:'' @ ''B'' @ '']'')" by code_simp
  have i4: "''- [ ] a [id:B] soon'' = [] \<or> last ''- [ ] a [id:B] soon'' \<noteq> CHR '']''" by code_simp
  from th[of "''- [ ] a [id:B]''"] i1
  have 4: "dependencyLine ''A'' ''B'' ''- [ ] a [id:B]''
     = butlast ''- [ ] a [id:B]'' @ '' [dependsOn:'' @ ''A'' @ '']]''" by blast
  from th[of "''- [ ] a [dependsOn:A] [id:B]''"] i2
  have 5: "dependencyLine ''A'' ''B'' ''- [ ] a [dependsOn:A] [id:B]'' = ''- [ ] a [dependsOn:A] [id:B]''"
    by blast
  from th[of "''- [ ] b [id:A]''"] i3
  have 6: "dependencyLine ''A'' ''B'' ''- [ ] b [id:A]'' = ''- [ ] b [id:A]''" by blast
  from th[of "''- [ ] a [id:B] soon''"] i4
  have 7: "dependencyLine ''A'' ''B'' ''- [ ] a [id:B] soon'' = ''- [ ] a [id:B] soon''" by blast
  from 1 2 3 4 5 6 7 show ?thesis by blast
qed

text \<open>
  The claim as stated fails on a document whose last line ends in a space, or in a
  carriage return before the final line feed: the first call finds no trailing bracket
  and changes no line, but writes the document trimmed, so the second call finds the
  bracket and splices the tag in.
\<close>

theorem C4_counterexample:
  "isWord ''A'' \<and> isWord ''B'' \<and>
   contents (updateTaskDependency ''A'' ''B'' (vaultOf [(''a.md'', ''- [ ] a [id:B] '')])) ''a.md''
     = ''- [ ] a [id:B]'' \<and>
   contents (updateTaskDependency ''A'' ''B'' (updateTaskDependency ''A'' ''B''
       (vaultOf [(''a.md'', ''- [ ] a [id:B] '')]))) ''a.md''
     = ''- [ ] a [id:B [dependsOn:A]]'' \<and>
   contents (updateTaskDependency ''A'' ''B''
       (vaultOf [(''w.md'', ''- [ ] a [id:B]'' @ [CHR 0x0D, CHR 0x0A])])) ''w.md''
     = ''- [ ] a [id:B]'' \<and>
   contents (updateTaskDependency ''A'' ''B'' (updateTaskDependency ''A'' ''B''
       (vaultOf [(''w.md'', ''- [ ] a [id:B]'' @ [CHR 0x0D, CHR 0x0A])]))) ''w.md''
     = ''- [ ] a [id:B [dependsOn:A]]''"
  by (intro conjI; code_simp)

end
